theory Spec2Isabelle
  imports Main "HOL-Library.Word"
begin

section \<open>gzip-hpp: the compress and decompress drivers and the signature sniffer\<close>

text \<open>
  The repository wraps zlib. Its own code is three headers: \<^verbatim>\<open>compress.hpp\<close>
  (class \<^verbatim>\<open>Compressor\<close> and the \<^verbatim>\<open>gzip::compress\<close> overloads),
  \<^verbatim>\<open>decompress.hpp\<close> (class \<^verbatim>\<open>Decompressor\<close> and the
  \<^verbatim>\<open>gzip::decompress\<close> overloads) and \<^verbatim>\<open>utils.hpp\<close>
  (\<^verbatim>\<open>gzip::is_compressed\<close>). zlib itself is an external library and is a
  parameter of the model.

  Conventions of the embedding:
  \<^item> a buffer (\<^verbatim>\<open>const char*\<close> with its \<^verbatim>\<open>size\<close>, a
    \<^verbatim>\<open>std::string\<close>, a \<^verbatim>\<open>std::vector<uint8_t>\<close>) is a list of bytes, and
    \<^verbatim>\<open>size\<close> is its length;
  \<^item> a variable \<^verbatim>\<open>size\<close> of the source is \<open>sz\<close> here, the fields
    \<^verbatim>\<open>max_\<close> and \<^verbatim>\<open>level_\<close> are \<open>max_c\<close>, \<open>max_d\<close> and
    \<open>level_c\<close>, and the parameter \<^verbatim>\<open>output\<close> is \<open>out\<close>;
  \<^item> \<^verbatim>\<open>std::size_t\<close> is \<open>nat\<close> (a buffer that exists in memory is far below
    the wrap-around of \<^verbatim>\<open>size_t\<close>); every \<^verbatim>\<open>static_cast<unsigned int>\<close> of
    the source is written out as \<open>mod 2 ^ 32\<close>;
  \<^item> a thrown exception is a value of type \<open>error\<close>; a member function that
    throws leaves its by-reference output container in the state it had reached, so its
    result is \<open>Inl (e, container)\<close>, and \<open>Inr container\<close> when it returns;
  \<^item> the \<^verbatim>\<open>do ... while\<close> loops are partial functions into \<open>option\<close>:
    \<open>None\<close> is a loop that never exits;
  \<^item> the macro \<^verbatim>\<open>DEBUG\<close> is supplied by the build and is a Boolean parameter.
\<close>

type_synonym byte = "8 word"

subsection \<open>utils.hpp: the signature sniffer\<close>

text \<open>
  \<^verbatim>\<open>is_compressed(const char* data, std::size_t size)\<close>. The two byte reads are
  guarded by \<^verbatim>\<open>size > 2\<close> (C++ \<^verbatim>\<open>&&\<close> does not evaluate its right
  operand when the left one is false).
\<close>

definition is_compressed :: "byte list \<Rightarrow> nat \<Rightarrow> bool" where
  "is_compressed data sz \<longleftrightarrow>
     sz > 2 \<and>
     ((data ! 0 = 0x78 \<and>
         (data ! 1 = 0x9C \<or> data ! 1 = 0x01 \<or> data ! 1 = 0xDA \<or> data ! 1 = 0x5E)) \<or>
      (data ! 0 = 0x1F \<and> data ! 1 = 0x8B))"

text \<open>The overloads for \<^verbatim>\<open>std::string\<close> and \<^verbatim>\<open>std::vector<uint8_t>\<close>.\<close>

definition is_compressed_string :: "byte list \<Rightarrow> bool" where
  "is_compressed_string data = is_compressed data (length data)"

definition is_compressed_vector :: "byte list \<Rightarrow> bool" where
  "is_compressed_vector binary_data = is_compressed binary_data (length binary_data)"

text \<open>
  The magic-byte patterns as the specification words them: \<open>0x78\<close> followed by
  \<open>0x9C\<close>, \<open>0x01\<close>, \<open>0xDA\<close> or \<open>0x5E\<close> (zlib), or \<open>0x1F 0x8B\<close> (gzip).
  This predicate follows the specification, not the source; it is what the source is
  compared with.
\<close>

definition spec_magic :: "byte \<Rightarrow> byte \<Rightarrow> bool" where
  "spec_magic b0 b1 \<longleftrightarrow>
     (b0 = 0x78 \<and> b1 \<in> {0x9C, 0x01, 0xDA, 0x5E}) \<or> (b0 = 0x1F \<and> b1 = 0x8B)"

subsection \<open>The external codec\<close>

text \<open>
  Modelled from the spec: the ``standard return codes'' of the external codec and the
  other constants of \<^verbatim>\<open>zlib.h\<close> that the headers use, with the values zlib
  gives them, and the largest \<^verbatim>\<open>unsigned int\<close>.
\<close>

definition Z_OK :: int where "Z_OK = 0"
definition Z_STREAM_END :: int where "Z_STREAM_END = 1"
definition Z_NEED_DICT :: int where "Z_NEED_DICT = 2"
definition Z_DATA_ERROR :: int where "Z_DATA_ERROR = - 3"
definition Z_BUF_ERROR :: int where "Z_BUF_ERROR = - 5"
definition Z_FINISH :: int where "Z_FINISH = 4"
definition Z_DEFLATED :: int where "Z_DEFLATED = 8"
definition Z_DEFAULT_STRATEGY :: int where "Z_DEFAULT_STRATEGY = 0"
definition Z_DEFAULT_COMPRESSION :: int where "Z_DEFAULT_COMPRESSION = - 1"
definition UINT_MAX :: nat where "UINT_MAX = 4294967295"

text \<open>
  \<^verbatim>\<open>z_stream\<close>: the fields the drivers touch. \<open>next_in\<close> is the input from the
  read pointer on, \<open>msg\<close> is a \<^verbatim>\<open>char*\<close> that zlib leaves null when it
  has no message, \<open>state\<close> is zlib's internal state. The allocator fields are set
  to \<^verbatim>\<open>Z_NULL\<close> (zlib's own allocator) and are left out; \<open>next_out\<close> is
  the position in the output container at which the bytes a call returns are stored.
\<close>

record 's z_stream =
  next_in :: "byte list"
  avail_in :: nat
  avail_out :: nat
  msg :: "string option"
  state :: 's

text \<open>
  One call of the codec, seen from inside: from its internal state, the input bytes it
  may read, the size of the output window and the flush mode, it gives its return code,
  the number of input bytes it consumed, the bytes it produced, its message and its new
  state.
\<close>

type_synonym 's zstep =
  "'s \<Rightarrow> byte list \<Rightarrow> nat \<Rightarrow> int \<Rightarrow> int \<times> nat \<times> byte list \<times> string option \<times> 's"

text \<open>
  The library: \<^verbatim>\<open>deflateInit2\<close> (level, method, window bits, memory level,
  strategy) and \<^verbatim>\<open>inflateInit2\<close> (window bits) give a return code and an
  initial state. \<^verbatim>\<open>deflateEnd\<close> and \<^verbatim>\<open>inflateEnd\<close> only free zlib's
  memory and have no counterpart.
\<close>

record 's zlib =
  deflateInit2 :: "int \<Rightarrow> int \<Rightarrow> int \<Rightarrow> int \<Rightarrow> int \<Rightarrow> int \<times> 's"
  deflate :: "'s zstep"
  inflateInit2 :: "int \<Rightarrow> int \<times> 's"
  inflate :: "'s zstep"

text \<open>
  Modelled from the spec: the external compression engine, ``an opaque collaborator
  exposing a streaming feed input, produce output until exhausted protocol with standard
  return codes and an internal error message string''. A call on a \<^verbatim>\<open>z_stream\<close>
  reads at most \<open>avail_in\<close> bytes at \<open>next_in\<close> and writes at most \<open>avail_out\<close>
  bytes at \<open>next_out\<close>; it advances the read pointer and lowers the two counts by
  what it read and wrote. The result is the return code, the bytes written at
  \<open>next_out\<close>, and the stream after the call.
\<close>

definition zcall :: "'s zstep \<Rightarrow> 's z_stream \<Rightarrow> int \<Rightarrow> int \<times> byte list \<times> 's z_stream" where
  "zcall f strm flush =
     (case f (state strm) (take (avail_in strm) (next_in strm)) (avail_out strm) flush of
        (ret, consumed, produced, m, st) \<Rightarrow>
          (ret,
           take (avail_out strm) produced,
           strm\<lparr>next_in := drop (min consumed (avail_in strm)) (next_in strm),
                avail_in := avail_in strm - min consumed (avail_in strm),
                avail_out := avail_out strm - length (take (avail_out strm) produced),
                msg := m,
                state := st\<rparr>))"

subsection \<open>Containers and exceptions\<close>

text \<open>
  \<^verbatim>\<open>resize(n)\<close> of a string or vector of bytes: cut to \<open>n\<close> elements, or
  filled up with zero bytes.
\<close>

definition resize :: "byte list \<Rightarrow> nat \<Rightarrow> byte list" where
  "resize xs n = take n xs @ replicate (n - length xs) 0"

text \<open>The codec's bytes \<open>ws\<close> written into the container from position \<open>off\<close> on.\<close>

definition store :: "byte list \<Rightarrow> nat \<Rightarrow> byte list \<Rightarrow> byte list" where
  "store xs off ws = take off xs @ ws @ drop (off + length ws) xs"

text \<open>
  Every \<^verbatim>\<open>throw\<close> of the headers is a \<^verbatim>\<open>std::runtime_error\<close> with a
  message. \<^verbatim>\<open>std::string error_msg = inflate_s.msg;\<close> with a null \<open>msg\<close>
  constructs a string from a null pointer, which is undefined behaviour and throws no
  \<^verbatim>\<open>std::runtime_error\<close>: that outcome is \<open>Null_msg_string\<close>.
  \<^verbatim>\<open>&output[0]\<close> on an empty \<^verbatim>\<open>std::vector\<close> is undefined behaviour as
  well (in practice a null \<open>next_out\<close>, on which zlib returns
  \<^verbatim>\<open>Z_STREAM_ERROR\<close> with a null \<open>msg\<close>): that outcome is
  \<open>Empty_vector_element\<close>.
\<close>

datatype error = Runtime_error string | Null_msg_string | Empty_vector_element

subsection \<open>compress.hpp\<close>

text \<open>Class \<^verbatim>\<open>Compressor\<close>: the fields \<^verbatim>\<open>max_\<close> and \<^verbatim>\<open>level_\<close>.\<close>

record Compressor =
  max_c :: nat
  level_c :: int

definition new_Compressor :: "int \<Rightarrow> nat \<Rightarrow> Compressor" where
  "new_Compressor level max_bytes = \<lparr>max_c = max_bytes, level_c = level\<rparr>"

text \<open>The state of the loop of \<^verbatim>\<open>Compressor::compress\<close>.\<close>

record 's cloop =
  coutput :: "byte list"
  size_compressed :: nat
  deflate_s :: "'s z_stream"

definition increase :: "nat \<Rightarrow> nat" where
  "increase sz = sz div 2 + 1024"

text \<open>
  \<^verbatim>\<open>if (output.size() < (size_compressed + increase)) output.resize(size_compressed + increase);\<close>
\<close>

definition grow :: "byte list \<Rightarrow> nat \<Rightarrow> nat \<Rightarrow> byte list" where
  "grow out sc inc = (if length out < sc + inc then resize out (sc + inc) else out)"

text \<open>
  One pass through the body of the loop: grow the container, offer the codec the window
  \<^verbatim>\<open>static_cast<unsigned int>(increase)\<close> at \<^verbatim>\<open>&output[0] + size_compressed\<close>,
  call \<^verbatim>\<open>deflate\<close> with \<^verbatim>\<open>Z_FINISH\<close> (its return code is not looked
  at), add \<^verbatim>\<open>increase - deflate_s.avail_out\<close> to the total.
\<close>

definition compress_iter :: "'s zlib \<Rightarrow> nat \<Rightarrow> 's cloop \<Rightarrow> 's cloop" where
  "compress_iter z sz s =
     (case zcall (deflate z) ((deflate_s s)\<lparr>avail_out := increase sz mod 2 ^ 32\<rparr>) Z_FINISH of
        (ret, written, strm) \<Rightarrow>
          \<lparr>coutput = store (grow (coutput s) (size_compressed s) (increase sz))
                      (size_compressed s) written,
           size_compressed = size_compressed s + (increase sz - avail_out strm),
           deflate_s = strm\<rparr>)"

text \<open>\<^verbatim>\<open>do { ... } while (deflate_s.avail_out == 0);\<close>\<close>

partial_function (option) compress_loop :: "'s zlib \<Rightarrow> nat \<Rightarrow> 's cloop \<Rightarrow> 's cloop option" where
  "compress_loop z sz s =
     (if avail_out (deflate_s (compress_iter z sz s)) = 0
      then compress_loop z sz (compress_iter z sz s)
      else Some (compress_iter z sz s))"

declare compress_loop.simps [code]

text \<open>
  The state in which the loop is entered: the caller's container, no byte produced, and
  the stream after \<^verbatim>\<open>deflateInit2\<close> with \<^verbatim>\<open>next_in = data\<close> and
  \<^verbatim>\<open>avail_in = static_cast<unsigned int>(size)\<close>. (\<open>avail_out\<close> is set
  by the first pass before anything reads it.)
\<close>

definition cinit :: "byte list \<Rightarrow> byte list \<Rightarrow> 's \<Rightarrow> 's cloop" where
  "cinit out data st =
     \<lparr>coutput = out, size_compressed = 0,
      deflate_s = \<lparr>next_in = data, avail_in = length data mod 2 ^ 32,
                   avail_out = 0, msg = None, state = st\<rparr>\<rparr>"

text \<open>
  \<^verbatim>\<open>Compressor::compress(output, data, size)\<close>. The window bits are \<open>15 + 16\<close>
  and the memory level is \<open>8\<close>.
\<close>

definition Compressor_compress ::
  "'s zlib \<Rightarrow> bool \<Rightarrow> Compressor \<Rightarrow> byte list \<Rightarrow> byte list \<Rightarrow> (error \<times> byte list + byte list) option" where
  "Compressor_compress z DEBUG self out data =
     (if DEBUG \<and> length data > UINT_MAX
      then Some (Inl (Runtime_error ''size arg is too large to fit into unsigned int type'', out))
      else if length data > max_c self
      then Some (Inl (Runtime_error ''size may use more memory than intended when decompressing'', out))
      else case deflateInit2 z (level_c self) Z_DEFLATED (15 + 16) 8 Z_DEFAULT_STRATEGY of
        (ret, st) \<Rightarrow>
          if ret \<noteq> Z_OK then Some (Inl (Runtime_error ''deflate init failed'', out))
          else
            (case compress_loop z (length data) (cinit out data st) of
               None \<Rightarrow> None
             | Some s \<Rightarrow> Some (Inr (resize (coutput s) (size_compressed s)))))"

text \<open>
  The three overloads of \<^verbatim>\<open>gzip::compress\<close> (pointer and size,
  \<^verbatim>\<open>std::string\<close>, \<^verbatim>\<open>std::vector<uint8_t>\<close>) all build
  \<^verbatim>\<open>Compressor comp(level)\<close>, with the default ceiling, and an empty container.
\<close>

definition gzip_compress :: "'s zlib \<Rightarrow> bool \<Rightarrow> byte list \<Rightarrow> int \<Rightarrow> (error + byte list) option" where
  "gzip_compress z DEBUG data level =
     map_option (map_sum fst id)
       (Compressor_compress z DEBUG (new_Compressor level 2000000000) [] data)"

definition gzip_compress_string :: "'s zlib \<Rightarrow> bool \<Rightarrow> byte list \<Rightarrow> int \<Rightarrow> (error + byte list) option" where
  "gzip_compress_string z DEBUG data level = gzip_compress z DEBUG data level"

definition gzip_compress_vector :: "'s zlib \<Rightarrow> bool \<Rightarrow> byte list \<Rightarrow> int \<Rightarrow> (error + byte list) option" where
  "gzip_compress_vector z DEBUG binary_data level = gzip_compress z DEBUG binary_data level"

subsection \<open>decompress.hpp\<close>

text \<open>Class \<^verbatim>\<open>Decompressor\<close>: the field \<^verbatim>\<open>max_\<close>.\<close>

record Decompressor =
  max_d :: nat

definition new_Decompressor :: "nat \<Rightarrow> Decompressor" where
  "new_Decompressor max_bytes = \<lparr>max_d = max_bytes\<rparr>"

record 's dloop =
  doutput :: "byte list"
  size_uncompressed :: nat
  inflate_s :: "'s z_stream"

text \<open>
  One pass through the body of the loop of \<^verbatim>\<open>Decompressor::decompress\<close>: the
  ceiling check on \<^verbatim>\<open>resize_to\<close>, the resize, the window
  \<^verbatim>\<open>static_cast<unsigned int>(2 * size)\<close>, the call of \<^verbatim>\<open>inflate\<close> with
  \<^verbatim>\<open>Z_FINISH\<close>, the check of its return code, the new total. A throw carries
  the container as the pass leaves it. This is the instance of the template for the
  container \<^verbatim>\<open>std::string\<close>, which the pointer and the string overload use:
  the write position \<^verbatim>\<open>&output[0] + size_uncompressed\<close> is defined for every
  string, also the empty one.
\<close>

definition decompress_iter :: "'s zlib \<Rightarrow> nat \<Rightarrow> nat \<Rightarrow> 's dloop \<Rightarrow> error \<times> byte list + 's dloop" where
  "decompress_iter z sz mx s =
     (if size_uncompressed s + 2 * sz > mx
      then Inl (Runtime_error
                  ''size of output string will use more memory then intended when decompressing'',
                doutput s)
      else case zcall (inflate z) ((inflate_s s)\<lparr>avail_out := (2 * sz) mod 2 ^ 32\<rparr>) Z_FINISH of
        (ret, written, strm) \<Rightarrow>
          if ret \<noteq> Z_STREAM_END \<and> ret \<noteq> Z_OK \<and> ret \<noteq> Z_BUF_ERROR
          then Inl (case msg strm of None \<Rightarrow> Null_msg_string | Some m \<Rightarrow> Runtime_error m,
                    store (resize (doutput s) (size_uncompressed s + 2 * sz))
                      (size_uncompressed s) written)
          else Inr \<lparr>doutput = store (resize (doutput s) (size_uncompressed s + 2 * sz))
                                (size_uncompressed s) written,
                    size_uncompressed = size_uncompressed s + (2 * sz - avail_out strm),
                    inflate_s = strm\<rparr>)"

text \<open>\<^verbatim>\<open>do { ... } while (inflate_s.avail_out == 0);\<close>\<close>

partial_function (option) decompress_loop ::
  "'s zlib \<Rightarrow> nat \<Rightarrow> nat \<Rightarrow> 's dloop \<Rightarrow> (error \<times> byte list + 's dloop) option" where
  "decompress_loop z sz mx s =
     (case decompress_iter z sz mx s of
        Inl e \<Rightarrow> Some (Inl e)
      | Inr s' \<Rightarrow>
          if avail_out (inflate_s s') = 0 then decompress_loop z sz mx s' else Some (Inr s'))"

declare decompress_loop.simps [code]

text \<open>
  The state in which the loop is entered: the caller's container, no byte produced, and
  the stream after \<^verbatim>\<open>inflateInit2\<close> with \<^verbatim>\<open>next_in = data\<close> and
  \<^verbatim>\<open>avail_in = static_cast<unsigned int>(size)\<close>.
\<close>

definition dinit :: "byte list \<Rightarrow> byte list \<Rightarrow> 's \<Rightarrow> 's dloop" where
  "dinit out data st =
     \<lparr>doutput = out, size_uncompressed = 0,
      inflate_s = \<lparr>next_in = data, avail_in = length data mod 2 ^ 32,
                   avail_out = 0, msg = None, state = st\<rparr>\<rparr>"

text \<open>
  \<^verbatim>\<open>Decompressor::decompress(output, data, size)\<close>. The window bits are
  \<open>15 + 32\<close>. \<^verbatim>\<open>inflateInit2\<close> comes first, then the size checks, then the loop.
\<close>

definition Decompressor_decompress ::
  "'s zlib \<Rightarrow> bool \<Rightarrow> Decompressor \<Rightarrow> byte list \<Rightarrow> byte list \<Rightarrow> (error \<times> byte list + byte list) option" where
  "Decompressor_decompress z DEBUG self out data =
     (case inflateInit2 z (15 + 32) of
        (ret, st) \<Rightarrow>
          if ret \<noteq> Z_OK then Some (Inl (Runtime_error ''inflate init failed'', out))
          else if DEBUG \<and> length data * 2 > UINT_MAX
          then Some (Inl (Runtime_error ''size arg is too large to fit into unsigned int type x2'', out))
          else if length data > max_d self \<or> length data * 2 > max_d self
          then Some (Inl (Runtime_error ''size may use more memory than intended when decompressing'', out))
          else
            (case decompress_loop z (length data) (max_d self) (dinit out data st) of
               None \<Rightarrow> None
             | Some (Inl e) \<Rightarrow> Some (Inl e)
             | Some (Inr s) \<Rightarrow> Some (Inr (resize (doutput s) (size_uncompressed s)))))"

text \<open>
  The three overloads of \<^verbatim>\<open>gzip::decompress\<close> build
  \<^verbatim>\<open>Decompressor decomp(max_bytes)\<close> and an empty container; \<open>max_bytes\<close>
  defaults to \<open>2000000000\<close>. The pointer and the string overload fill a
  \<^verbatim>\<open>std::string\<close>, the vector overload a \<^verbatim>\<open>std::vector<uint8_t>\<close>.
\<close>

definition gzip_decompress :: "'s zlib \<Rightarrow> bool \<Rightarrow> byte list \<Rightarrow> nat \<Rightarrow> (error + byte list) option" where
  "gzip_decompress z DEBUG data max_bytes =
     map_option (map_sum fst id)
       (Decompressor_decompress z DEBUG (new_Decompressor max_bytes) [] data)"

definition gzip_decompress_string :: "'s zlib \<Rightarrow> bool \<Rightarrow> byte list \<Rightarrow> nat \<Rightarrow> (error + byte list) option" where
  "gzip_decompress_string z DEBUG data max_bytes = gzip_decompress z DEBUG data max_bytes"

text \<open>
  The instance of the template for \<^verbatim>\<open>std::vector<uint8_t>\<close>. A pass differs
  from the one above in one place: when the container has just been resized to
  \<open>resize_to = 0\<close> elements, \<^verbatim>\<open>&output[0]\<close> is the element of an empty
  vector. (The ceiling check before it cannot fire then.) The loop and the function
  around it are the same text.
\<close>

definition decompress_iter_vector :: "'s zlib \<Rightarrow> nat \<Rightarrow> nat \<Rightarrow> 's dloop \<Rightarrow> error \<times> byte list + 's dloop" where
  "decompress_iter_vector z sz mx s =
     (if size_uncompressed s + 2 * sz = 0 then Inl (Empty_vector_element, [])
      else decompress_iter z sz mx s)"

partial_function (option) decompress_loop_vector ::
  "'s zlib \<Rightarrow> nat \<Rightarrow> nat \<Rightarrow> 's dloop \<Rightarrow> (error \<times> byte list + 's dloop) option" where
  "decompress_loop_vector z sz mx s =
     (case decompress_iter_vector z sz mx s of
        Inl e \<Rightarrow> Some (Inl e)
      | Inr s' \<Rightarrow>
          if avail_out (inflate_s s') = 0 then decompress_loop_vector z sz mx s'
          else Some (Inr s'))"

declare decompress_loop_vector.simps [code]

definition Decompressor_decompress_vector ::
  "'s zlib \<Rightarrow> bool \<Rightarrow> Decompressor \<Rightarrow> byte list \<Rightarrow> byte list \<Rightarrow> (error \<times> byte list + byte list) option" where
  "Decompressor_decompress_vector z DEBUG self out data =
     (case inflateInit2 z (15 + 32) of
        (ret, st) \<Rightarrow>
          if ret \<noteq> Z_OK then Some (Inl (Runtime_error ''inflate init failed'', out))
          else if DEBUG \<and> length data * 2 > UINT_MAX
          then Some (Inl (Runtime_error ''size arg is too large to fit into unsigned int type x2'', out))
          else if length data > max_d self \<or> length data * 2 > max_d self
          then Some (Inl (Runtime_error ''size may use more memory than intended when decompressing'', out))
          else
            (case decompress_loop_vector z (length data) (max_d self) (dinit out data st) of
               None \<Rightarrow> None
             | Some (Inl e) \<Rightarrow> Some (Inl e)
             | Some (Inr s) \<Rightarrow> Some (Inr (resize (doutput s) (size_uncompressed s)))))"

definition gzip_decompress_vector :: "'s zlib \<Rightarrow> bool \<Rightarrow> byte list \<Rightarrow> nat \<Rightarrow> (error + byte list) option" where
  "gzip_decompress_vector z DEBUG binary_data max_bytes =
     map_option (map_sum fst id)
       (Decompressor_decompress_vector z DEBUG (new_Decompressor max_bytes) [] binary_data)"

subsection \<open>A stand-in codec\<close>

text \<open>
  zlib is a parameter of everything above. To run the drivers on concrete buffers the
  parameter is instantiated with a small stand-in that follows the same protocol: its
  compressed stream is the gzip magic \<open>0x1F 0x8B\<close> followed by the bytes
  themselves, handed out window by window. Like zlib it answers
  \<^verbatim>\<open>Z_BUF_ERROR\<close> when it can make no progress, \<^verbatim>\<open>Z_DATA_ERROR\<close> with
  a message on a bad header, and \<^verbatim>\<open>Z_NEED_DICT\<close> with no message on a zlib
  header that asks for a preset dictionary (\<open>0x78 0xBB\<close> and the four bytes of the
  dictionary id). Its internal state is the output it still has to hand out.
\<close>

definition stub_deflate :: "byte list zstep" where
  "stub_deflate st inp w flush =
     (if length (st @ inp) \<le> w then Z_STREAM_END else Z_OK,
      length inp, take w (st @ inp), None, drop w (st @ inp))"

definition stub_inflate :: "byte list zstep" where
  "stub_inflate st inp w flush =
     (if inp = [] then
        (if st \<noteq> [] \<and> length st \<le> w then Z_STREAM_END else Z_BUF_ERROR,
         0, take w st, None, drop w st)
      else if take 2 inp = [0x1F, 0x8B] then
        (if length (drop 2 inp) \<le> w then Z_STREAM_END else Z_BUF_ERROR,
         length inp, take w (drop 2 inp), None, drop w (drop 2 inp))
      else if take 2 inp = [0x78, 0xBB] \<and> 6 \<le> length inp then
        (Z_NEED_DICT, 6, [], None, [])
      else
        (Z_DATA_ERROR, 0, [], Some ''incorrect header check'', []))"

definition stub :: "byte list zlib" where
  "stub = \<lparr>deflateInit2 = (\<lambda>level method window_bits mem_level strategy. (Z_OK, [0x1F, 0x8B])),
           deflate = stub_deflate,
           inflateInit2 = (\<lambda>window_bits. (Z_OK, [])),
           inflate = stub_inflate\<rparr>"

text \<open>
  A second stand-in, which compresses: \<open>runs\<close> writes the two magic bytes and then,
  for a non-empty input, the number of input bytes and the first of them; it reads the
  four bytes back into that many copies of the byte. It serves on inputs that are one
  run of fewer than 256 equal bytes, where the output of decompress is longer than its
  window and the loop takes several passes.
\<close>

definition runs_deflate :: "byte list zstep" where
  "runs_deflate st inp w flush =
     (let pending = st @ (if inp = [] then [] else [of_nat (length inp), hd inp])
      in (if length pending \<le> w then Z_STREAM_END else Z_OK,
          length inp, take w pending, None, drop w pending))"

definition runs_inflate :: "byte list zstep" where
  "runs_inflate st inp w flush =
     (let pending = (if length inp = 4 \<and> take 2 inp = [0x1F, 0x8B]
                     then replicate (unat (inp ! 2)) (inp ! 3) else st)
      in (if length pending \<le> w then Z_STREAM_END else Z_BUF_ERROR,
          length inp, take w pending, None, drop w pending))"

definition runs :: "byte list zlib" where
  "runs = \<lparr>deflateInit2 = (\<lambda>level method window_bits mem_level strategy. (Z_OK, [0x1F, 0x8B])),
           deflate = runs_deflate,
           inflateInit2 = (\<lambda>window_bits. (Z_OK, [])),
           inflate = runs_inflate\<rparr>"

subsection \<open>The states a loop passes through, and what a codec hands out\<close>

text \<open>
  The states in which the body of the compress loop is entered, each with the bytes the
  codec has written in the passes before it: the initial state, with none, and each
  state that a pass leaves with \<open>avail_out = 0\<close>, with the bytes of that pass added.
\<close>

inductive chead :: "'s zlib \<Rightarrow> nat \<Rightarrow> 's cloop \<Rightarrow> 's cloop \<Rightarrow> byte list \<Rightarrow> bool" for z sz s0 where
  chead_init: "chead z sz s0 s0 []"
| chead_again: "chead z sz s0 s ws \<Longrightarrow>
     zcall (deflate z) ((deflate_s s)\<lparr>avail_out := increase sz mod 2 ^ 32\<rparr>) Z_FINISH =
       (ret, written, strm) \<Longrightarrow>
     avail_out strm = 0 \<Longrightarrow>
     chead z sz s0 (compress_iter z sz s) (ws @ written)"

text \<open>
  A codec call \<open>f\<close>, offered the output window \<open>w\<close> again and again with
  \<^verbatim>\<open>Z_FINISH\<close>, hands out the bytes \<open>rem\<close> from the stream \<open>strm\<close>:
  as long as at least \<open>w\<close> bytes remain it fills the window with the next
  \<open>w\<close> of them, and the call that finds fewer writes them all; every call returns
  a code in \<open>good\<close>. Only the window that the driver itself offers is spoken of:
  what the codec would hand out for other windows is left open (zlib's stored blocks,
  for one, are cut to the window).
\<close>

inductive emits :: "'s zstep \<Rightarrow> int set \<Rightarrow> nat \<Rightarrow> 's z_stream \<Rightarrow> byte list \<Rightarrow> bool"
  for f good w where
  emits_last: "length rem < w \<Longrightarrow>
     zcall f (strm\<lparr>avail_out := w\<rparr>) Z_FINISH = (ret, rem, strm') \<Longrightarrow> ret \<in> good \<Longrightarrow>
     emits f good w strm rem"
| emits_more: "0 < w \<Longrightarrow> w \<le> length rem \<Longrightarrow>
     zcall f (strm\<lparr>avail_out := w\<rparr>) Z_FINISH = (ret, take w rem, strm') \<Longrightarrow> ret \<in> good \<Longrightarrow>
     emits f good w strm' (drop w rem) \<Longrightarrow>
     emits f good w strm rem"

text \<open>
  Two states of a loop that agree on everything a run can observe: the stream, the
  total, and the bytes of the container below the total. They may differ in the bytes
  the container holds beyond it.
\<close>

definition csame :: "'s cloop \<Rightarrow> 's cloop \<Rightarrow> bool" where
  "csame s t \<longleftrightarrow>
     deflate_s s = deflate_s t \<and> size_compressed s = size_compressed t \<and>
     size_compressed s \<le> length (coutput s) \<and> size_compressed t \<le> length (coutput t) \<and>
     take (size_compressed s) (coutput s) = take (size_compressed t) (coutput t)"

definition dsame :: "'s dloop \<Rightarrow> 's dloop \<Rightarrow> bool" where
  "dsame s t \<longleftrightarrow>
     inflate_s s = inflate_s t \<and> size_uncompressed s = size_uncompressed t \<and>
     size_uncompressed s \<le> length (doutput s) \<and> size_uncompressed t \<le> length (doutput t) \<and>
     take (size_uncompressed s) (doutput s) = take (size_uncompressed t) (doutput t)"


section \<open>The signature sniffer\<close>

text \<open>
  C8. \<^verbatim>\<open>is_compressed(data, size)\<close> is false for every buffer with
  \<open>size \<le> 2\<close>, whatever its bytes: the check asks for \<open>size > 2\<close>. In particular
  the two-byte buffers \<open>0x1F 0x8B\<close> (the whole gzip magic) and \<open>0x78 0x9C\<close> (a
  whole zlib magic) are classified as not compressed, by the string and by the vector
  overload.
\<close>

theorem is_compressed_false_up_to_two_bytes:
  "(sz \<le> 2 \<longrightarrow> \<not> is_compressed data sz) \<and>
   \<not> is_compressed_string [0x1F, 0x8B] \<and> \<not> is_compressed_string [0x78, 0x9C] \<and>
   \<not> is_compressed_vector [0x1F, 0x8B] \<and> \<not> is_compressed_vector [0x78, 0x9C]"
  by (simp add: is_compressed_def is_compressed_string_def is_compressed_vector_def)

theorem is_compressed_false_up_to_two_bytes_witness:
  "(2::nat) \<le> 2 \<and> \<not> is_compressed [0x1F, 0x8B, 0x08] 2"
  using is_compressed_false_up_to_two_bytes [of 2 "[0x1F, 0x8B, 0x08]"] by simp

text \<open>
  C2, as stated, fails: the buffer of exactly the two bytes \<open>0x1F 0x8B\<close> has first
  two bytes that match the gzip pattern, and \<^verbatim>\<open>is_compressed\<close> returns false.
\<close>

theorem is_compressed_two_byte_magic_counterexample:
  "spec_magic ([0x1F, 0x8B] ! 0) ([0x1F, 0x8B] ! 1) \<and> \<not> is_compressed_string [0x1F, 0x8B]"
  by (simp add: spec_magic_def is_compressed_string_def is_compressed_def)

text \<open>
  C2, amended. For every buffer of more than two bytes, \<^verbatim>\<open>is_compressed\<close>
  returns true when its first two bytes match a zlib pattern (\<open>0x78\<close> followed by
  \<open>0x9C\<close>, \<open>0x01\<close>, \<open>0xDA\<close> or \<open>0x5E\<close>) or the gzip pattern
  (\<open>0x1F 0x8B\<close>), and false when they match neither: the result is a function of the
  first two bytes alone. This holds for the pointer-and-size form and for the string and
  vector overloads.
\<close>

theorem is_compressed_by_first_two_bytes:
  "(2 < sz \<longrightarrow> is_compressed data sz = spec_magic (data ! 0) (data ! 1)) \<and>
   (2 < length data \<longrightarrow> is_compressed_string data = spec_magic (data ! 0) (data ! 1)) \<and>
   (2 < length data \<longrightarrow> is_compressed_vector data = spec_magic (data ! 0) (data ! 1))"
  by (auto simp add: spec_magic_def is_compressed_string_def is_compressed_vector_def
        is_compressed_def)

theorem is_compressed_by_first_two_bytes_witness:
  "(2::nat) < 3 \<and> 2 < length [0x1F, 0x8B, 0x08 :: byte] \<and>
   is_compressed [0x1F, 0x8B, 0x08] 3 \<and> is_compressed_string [0x1F, 0x8B, 0x08] \<and>
   is_compressed_vector [0x1F, 0x8B, 0x08] \<and>
   \<not> is_compressed_string [0x68, 0x65, 0x6C, 0x6C, 0x6F]"
  using is_compressed_by_first_two_bytes [of 3 "[0x1F, 0x8B, 0x08]"]
    is_compressed_by_first_two_bytes [of 5 "[0x68, 0x65, 0x6C, 0x6C, 0x6F]"]
  by (simp add: spec_magic_def)

section \<open>Refusals before the codec is driven\<close>

text \<open>
  C7. \<^verbatim>\<open>Compressor::compress\<close> throws a \<^verbatim>\<open>std::runtime_error\<close> whenever
  the input is larger than the ceiling; the codec is not involved at all (the result is
  the same for every codec) and the container is left as it was. So does
  \<^verbatim>\<open>gzip::compress\<close>, whose ceiling is \<open>2000000000\<close>.
  \<^verbatim>\<open>Decompressor::decompress\<close> and \<^verbatim>\<open>gzip::decompress\<close> likewise throw
  a \<^verbatim>\<open>std::runtime_error\<close> whenever the compressed input is larger than the
  ceiling: only \<^verbatim>\<open>inflateInit2\<close> has run by then, no data is handed to
  \<^verbatim>\<open>inflate\<close> (the result does not depend on it), and the container is left as
  it was.
\<close>

theorem oversized_input_refused:
  "(max_c self < length data \<longrightarrow>
      (\<exists>m. Compressor_compress z DEBUG self out data = Some (Inl (Runtime_error m, out))) \<and>
      Compressor_compress z' DEBUG self out data = Compressor_compress z DEBUG self out data) \<and>
   (2000000000 < length data \<longrightarrow>
      (\<exists>m. gzip_compress z DEBUG data level = Some (Inl (Runtime_error m)))) \<and>
   (max_d dself < length data \<longrightarrow>
      (\<exists>m. Decompressor_decompress z DEBUG dself out data = Some (Inl (Runtime_error m, out))) \<and>
      Decompressor_decompress (z\<lparr>deflate := f, inflate := g\<rparr>) DEBUG dself out data =
        Decompressor_decompress z DEBUG dself out data) \<and>
   (max_bytes < length data \<longrightarrow>
      (\<exists>m. gzip_decompress z DEBUG data max_bytes = Some (Inl (Runtime_error m))))"
  by (auto simp add: Compressor_compress_def gzip_compress_def new_Compressor_def
        Decompressor_decompress_def gzip_decompress_def new_Decompressor_def
        split: prod.splits)

theorem oversized_input_refused_witness:
  "max_c (new_Compressor 6 3) < length [1, 2, 3, 4 :: byte] \<and>
   Compressor_compress stub False (new_Compressor 6 3) [7] [1, 2, 3, 4] =
     Some (Inl (Runtime_error ''size may use more memory than intended when decompressing'', [7])) \<and>
   (2000000000 :: nat) < length (replicate 2000000001 (0 :: byte)) \<and>
   gzip_compress stub False (replicate 2000000001 0) Z_DEFAULT_COMPRESSION =
     Some (Inl (Runtime_error ''size may use more memory than intended when decompressing'')) \<and>
   max_d (new_Decompressor 3) < length [1, 2, 3, 4 :: byte] \<and>
   Decompressor_decompress stub False (new_Decompressor 3) [7] [1, 2, 3, 4] =
     Some (Inl (Runtime_error ''size may use more memory than intended when decompressing'', [7])) \<and>
   gzip_decompress stub False [1, 2, 3, 4] 3 =
     Some (Inl (Runtime_error ''size may use more memory than intended when decompressing''))"
  using oversized_input_refused [where self = "new_Compressor 6 3" and data = "[1, 2, 3, 4]"
      and z = stub and z' = stub and DEBUG = False and out = "[7]"
      and dself = "new_Decompressor 3" and max_bytes = 3]
    oversized_input_refused [where data = "replicate 2000000001 0" and z = stub and DEBUG = False
      and level = Z_DEFAULT_COMPRESSION]
  by (simp add: Compressor_compress_def gzip_compress_def new_Compressor_def
        Decompressor_decompress_def gzip_decompress_def new_Decompressor_def stub_def Z_OK_def)

text \<open>
  C9. \<^verbatim>\<open>Decompressor::decompress\<close> throws a \<^verbatim>\<open>std::runtime_error\<close>
  whenever twice the input size exceeds the ceiling, before any call of
  \<^verbatim>\<open>inflate\<close> (the result does not depend on it) and with the container left as
  it was. With the default ceiling \<open>2000000000\<close>, \<^verbatim>\<open>gzip::decompress\<close>
  refuses every input of more than \<open>1000000000\<close> bytes, also inputs that are
  within the ceiling themselves.
\<close>

theorem decompress_refuses_doubled_size:
  "(max_d self < 2 * length data \<longrightarrow>
      (\<exists>m. Decompressor_decompress z DEBUG self out data = Some (Inl (Runtime_error m, out))) \<and>
      Decompressor_decompress (z\<lparr>deflate := f, inflate := g\<rparr>) DEBUG self out data =
        Decompressor_decompress z DEBUG self out data) \<and>
   (max_bytes < 2 * length data \<longrightarrow>
      (\<exists>m. gzip_decompress z DEBUG data max_bytes = Some (Inl (Runtime_error m)))) \<and>
   (1000000000 < length data \<longrightarrow>
      (\<exists>m. gzip_decompress z DEBUG data 2000000000 = Some (Inl (Runtime_error m))))"
  by (auto simp add: Decompressor_decompress_def gzip_decompress_def new_Decompressor_def
        split: prod.splits)

theorem decompress_refuses_doubled_size_witness:
  "max_d (new_Decompressor 5) < 2 * length [0x1F, 0x8B, 1 :: byte] \<and>
   length [0x1F, 0x8B, 1 :: byte] \<le> max_d (new_Decompressor 5) \<and>
   Decompressor_decompress stub False (new_Decompressor 5) [7] [0x1F, 0x8B, 1] =
     Some (Inl (Runtime_error ''size may use more memory than intended when decompressing'', [7])) \<and>
   gzip_decompress stub False [0x1F, 0x8B, 1] 5 =
     Some (Inl (Runtime_error ''size may use more memory than intended when decompressing'')) \<and>
   (1000000000 :: nat) < length (0x1F # 0x8B # replicate 999999999 (0 :: byte)) \<and>
   gzip_decompress stub False (0x1F # 0x8B # replicate 999999999 0) 2000000000 =
     Some (Inl (Runtime_error ''size may use more memory than intended when decompressing''))"
  using decompress_refuses_doubled_size [where self = "new_Decompressor 5"
      and data = "[0x1F, 0x8B, 1]" and z = stub and DEBUG = False and out = "[7]" and max_bytes = 5]
    decompress_refuses_doubled_size [where data = "0x1F # 0x8B # replicate 999999999 0"
      and z = stub and DEBUG = False]
  by (simp add: Decompressor_decompress_def gzip_decompress_def new_Decompressor_def stub_def Z_OK_def)

section \<open>Containers, codec calls and single passes\<close>

lemma zcall_window:
  "zcall f strm flush = (ret, written, strm') \<Longrightarrow>
     length written \<le> avail_out strm \<and> avail_out strm' = avail_out strm - length written"
  by (auto simp add: zcall_def split: prod.splits)

lemma length_resize [simp]: "length (resize xs n) = n"
  by (simp add: resize_def)

lemma resize_idem: "n \<le> length xs \<Longrightarrow> resize xs n = take n xs"
  by (simp add: resize_def)

lemma length_store: "off + length ws \<le> length xs \<Longrightarrow> length (store xs off ws) = length xs"
  by (simp add: store_def)

lemma take_store:
  "off + length ws \<le> length xs \<Longrightarrow> take (off + length ws) (store xs off ws) = take off xs @ ws"
  by (simp add: store_def)

lemma grow_ge: "sc + inc \<le> length (grow out sc inc)"
  by (simp add: grow_def)

lemma grow_exact: "length out \<le> sc + inc \<Longrightarrow> length (grow out sc inc) = sc + inc"
  by (simp add: grow_def)

lemma take_grow: "sc \<le> length out \<Longrightarrow> take sc (grow out sc inc) = take sc out"
  by (simp add: grow_def resize_def)

lemma take_resize: "sc \<le> length out \<Longrightarrow> sc \<le> n \<Longrightarrow> take sc (resize out n) = take sc out"
  by (simp add: resize_def)

lemma decompress_iter_Inr:
  assumes "decompress_iter z sz mx s = Inr s'"
  shows "length (doutput s') = size_uncompressed s + 2 * sz"
    and "size_uncompressed s + 2 * sz \<le> mx"
    and "size_uncompressed s' \<le> length (doutput s')"
    and "size_uncompressed s \<le> size_uncompressed s'"
proof -
  obtain ret written strm where zc:
    "zcall (inflate z) ((inflate_s s)\<lparr>avail_out := (2 * sz) mod 2 ^ 32\<rparr>) Z_FINISH = (ret, written, strm)"
    by (cases "zcall (inflate z) ((inflate_s s)\<lparr>avail_out := (2 * sz) mod 2 ^ 32\<rparr>) Z_FINISH")
  from zcall_window [OF zc] have w: "length written \<le> (2 * sz) mod 2 ^ 32"
    and a: "avail_out strm = (2 * sz) mod 2 ^ 32 - length written" by simp_all
  have le: "(2 * sz) mod 2 ^ 32 \<le> 2 * sz" by simp
  from assms zc show "size_uncompressed s + 2 * sz \<le> mx"
    by (simp add: decompress_iter_def split: if_splits)
  from assms zc have s': "s' = \<lparr>doutput = store (resize (doutput s) (size_uncompressed s + 2 * sz))
                                (size_uncompressed s) written,
                    size_uncompressed = size_uncompressed s + (2 * sz - avail_out strm),
                    inflate_s = strm\<rparr>"
    by (simp add: decompress_iter_def split: if_splits)
  from w le show "length (doutput s') = size_uncompressed s + 2 * sz"
    by (simp add: s' length_store)
  then show "size_uncompressed s' \<le> length (doutput s')"
    by (simp add: s')
  show "size_uncompressed s \<le> size_uncompressed s'" by (simp add: s')
qed

lemma decompress_iter_Inl:
  assumes "decompress_iter z sz mx s = Inl (e, out')"
  shows "out' = doutput s \<or> length out' \<le> mx"
proof -
  obtain ret written strm where zc:
    "zcall (inflate z) ((inflate_s s)\<lparr>avail_out := (2 * sz) mod 2 ^ 32\<rparr>) Z_FINISH = (ret, written, strm)"
    by (cases "zcall (inflate z) ((inflate_s s)\<lparr>avail_out := (2 * sz) mod 2 ^ 32\<rparr>) Z_FINISH")
  from zcall_window [OF zc] have w: "length written \<le> (2 * sz) mod 2 ^ 32" by simp
  have le: "(2 * sz) mod 2 ^ 32 \<le> 2 * sz" by simp
  show ?thesis
  proof (cases "size_uncompressed s + 2 * sz > mx")
    case True
    with assms show ?thesis by (simp add: decompress_iter_def)
  next
    case False
    with assms zc have "out' = store (resize (doutput s) (size_uncompressed s + 2 * sz))
                      (size_uncompressed s) written"
      by (simp add: decompress_iter_def split: if_splits)
    with w le False show ?thesis by (simp add: length_store)
  qed
qed

lemma decompress_loop_last_pass:
  assumes "decompress_loop z sz mx s = Some r"
  shows "\<exists>t. decompress_iter z sz mx t = r"
proof (rule decompress_loop.raw_induct [where P = "\<lambda>z sz mx s r. \<exists>t. decompress_iter z sz mx t = r", OF _ assms])
  fix loop :: "'a zlib \<Rightarrow> nat \<Rightarrow> nat \<Rightarrow> 'a dloop \<Rightarrow> (error \<times> byte list + 'a dloop) option"
  fix z sz mx s r
  assume IH: "\<And>z sz mx s r. loop z sz mx s = Some r \<Longrightarrow> \<exists>t. decompress_iter z sz mx t = r"
    and body: "(case decompress_iter z sz mx s of Inl e \<Rightarrow> Some (Inl e)
      | Inr s' \<Rightarrow> if avail_out (inflate_s s') = 0 then loop z sz mx s' else Some (Inr s')) = Some r"
  show "\<exists>t. decompress_iter z sz mx t = r"
  proof (cases "decompress_iter z sz mx s")
    case (Inl e)
    with body show ?thesis by auto
  next
    case (Inr s')
    with body IH show ?thesis by (cases "avail_out (inflate_s s') = 0") auto
  qed
qed

lemma chead_first_pass:
  assumes "chead z sz (compress_iter z sz s) t ws"
    and "zcall (deflate z) ((deflate_s s)\<lparr>avail_out := increase sz mod 2 ^ 32\<rparr>) Z_FINISH =
           (ret, written, strm)"
    and "avail_out strm = 0"
  shows "chead z sz s t (written @ ws)"
  using assms(1)
proof induction
  case chead_init
  from chead_again [OF chead.chead_init assms(2) assms(3)] show ?case by simp
next
  case (chead_again u ws ret' written' strm')
  from chead.chead_again [OF chead_again.IH chead_again.hyps(2) chead_again.hyps(3)]
  show ?case by simp
qed

lemma compress_loop_last_pass:
  assumes "compress_loop z sz s = Some r"
  shows "\<exists>t ws. chead z sz s t ws \<and> compress_iter z sz t = r \<and> avail_out (deflate_s r) \<noteq> 0"
proof (rule compress_loop.raw_induct [where P = "\<lambda>z sz s r.
    \<exists>t ws. chead z sz s t ws \<and> compress_iter z sz t = r \<and> avail_out (deflate_s r) \<noteq> 0", OF _ assms])
  fix loop :: "'a zlib \<Rightarrow> nat \<Rightarrow> 'a cloop \<Rightarrow> 'a cloop option"
  fix z sz s r
  assume IH: "\<And>z sz s r. loop z sz s = Some r \<Longrightarrow>
      \<exists>t ws. chead z sz s t ws \<and> compress_iter z sz t = r \<and> avail_out (deflate_s r) \<noteq> 0"
    and body: "(if avail_out (deflate_s (compress_iter z sz s)) = 0
      then loop z sz (compress_iter z sz s) else Some (compress_iter z sz s)) = Some r"
  show "\<exists>t ws. chead z sz s t ws \<and> compress_iter z sz t = r \<and> avail_out (deflate_s r) \<noteq> 0"
  proof (cases "avail_out (deflate_s (compress_iter z sz s)) = 0")
    case True
    with body have "loop z sz (compress_iter z sz s) = Some r" by simp
    from IH [OF this] obtain t ws where t: "chead z sz (compress_iter z sz s) t ws"
      "compress_iter z sz t = r" "avail_out (deflate_s r) \<noteq> 0" by blast
    obtain ret written strm where zc:
      "zcall (deflate z) ((deflate_s s)\<lparr>avail_out := increase sz mod 2 ^ 32\<rparr>) Z_FINISH =
         (ret, written, strm)"
      by (cases "zcall (deflate z) ((deflate_s s)\<lparr>avail_out := increase sz mod 2 ^ 32\<rparr>) Z_FINISH")
    with True have "avail_out strm = 0" by (simp add: compress_iter_def)
    from chead_first_pass [OF t(1) zc this] t(2,3) show ?thesis by blast
  next
    case False
    with body show ?thesis by (auto intro: chead_init)
  qed
qed

section \<open>Driving a codec that hands out a stream\<close>

lemma emitsD:
  assumes "emits f good w strm rem"
  shows "0 < w \<and>
         (\<exists>ret strm'. zcall f (strm\<lparr>avail_out := w\<rparr>) Z_FINISH = (ret, take w rem, strm') \<and>
            ret \<in> good \<and> (w \<le> length rem \<longrightarrow> emits f good w strm' (drop w rem)))"
  using assms
proof cases
  case (emits_last ret strm')
  then show ?thesis by auto
next
  case (emits_more ret strm')
  then show ?thesis by auto
qed

lemma emitsI:
  assumes "0 < w"
    and "\<exists>ret strm'. zcall f (strm\<lparr>avail_out := w\<rparr>) Z_FINISH = (ret, take w rem, strm') \<and>
           ret \<in> good \<and> (w \<le> length rem \<longrightarrow> emits f good w strm' (drop w rem))"
  shows "emits f good w strm rem"
proof (cases "w \<le> length rem")
  case True
  with assms show ?thesis by (auto intro: emits_more)
next
  case False
  with assms(2) obtain ret strm' where
    "zcall f (strm\<lparr>avail_out := w\<rparr>) Z_FINISH = (ret, rem, strm')" "ret \<in> good" by auto
  with False show ?thesis by (auto intro: emits_last)
qed

lemma stub_deflate_emits:
  assumes "Z_STREAM_END \<in> good" "Z_OK \<in> good" and w: "0 < w"
  shows "state strm @ take (avail_in strm) (next_in strm) = rem \<Longrightarrow> emits stub_deflate good w strm rem"
proof (induction "length rem" arbitrary: strm rem rule: less_induct)
  case less
  show ?case
  proof (rule emitsI [OF w])
    let ?strm' = "strm\<lparr>next_in := drop (min (length (take (avail_in strm) (next_in strm))) (avail_in strm)) (next_in strm),
                avail_in := avail_in strm - min (length (take (avail_in strm) (next_in strm))) (avail_in strm),
                avail_out := w - length (take w (take w rem)),
                msg := None,
                state := drop w rem\<rparr>"
    let ?ret = "if length rem \<le> w then Z_STREAM_END else Z_OK"
    have zc: "zcall stub_deflate (strm\<lparr>avail_out := w\<rparr>) Z_FINISH = (?ret, take w rem, ?strm')"
      using less.prems by (simp add: zcall_def stub_deflate_def)
    have inp': "take (avail_in ?strm') (next_in ?strm') = []"
      by (simp add: min_def)
    have "w \<le> length rem \<longrightarrow> emits stub_deflate good w ?strm' (drop w rem)"
    proof
      assume "w \<le> length rem"
      with w have "length (drop w rem) < length rem" by simp
      then show "emits stub_deflate good w ?strm' (drop w rem)"
        by (rule less.hyps) (simp add: min_def)
    qed
    with zc assms(1,2) show "\<exists>ret strm'. zcall stub_deflate (strm\<lparr>avail_out := w\<rparr>) Z_FINISH = (ret, take w rem, strm') \<and>
                ret \<in> good \<and> (w \<le> length rem \<longrightarrow> emits stub_deflate good w strm' (drop w rem))"
      by (intro exI [of _ ?ret] exI [of _ ?strm']) simp
  qed
qed

lemma compress_loop_emits:
  assumes "emits (deflate z) good (increase sz) (deflate_s s) rem"
    and "increase sz < 2 ^ 32"
    and "size_compressed s \<le> length (coutput s)"
  shows "\<exists>s'. compress_loop z sz s = Some s' \<and>
           size_compressed s' = size_compressed s + length rem \<and>
           size_compressed s' \<le> length (coutput s') \<and>
           take (size_compressed s') (coutput s') = take (size_compressed s) (coutput s) @ rem"
  using assms
proof (induction "length rem" arbitrary: s rem rule: less_induct)
  case less
  let ?w = "increase sz"
  let ?sc = "size_compressed s"
  have w: "0 < ?w" by (simp add: increase_def)
  from emitsD [OF less.prems(1)] obtain ret strm' where
    zc: "zcall (deflate z) ((deflate_s s)\<lparr>avail_out := ?w\<rparr>) Z_FINISH = (ret, take ?w rem, strm')"
    and more: "?w \<le> length rem \<longrightarrow> emits (deflate z) good ?w strm' (drop ?w rem)"
    by blast
  from zcall_window [OF zc] have a: "avail_out strm' = ?w - length (take ?w rem)" by simp
  let ?g = "grow (coutput s) ?sc ?w"
  let ?s1 = "compress_iter z sz s"
  have s1: "?s1 = \<lparr>coutput = store ?g ?sc (take ?w rem),
                   size_compressed = ?sc + (?w - avail_out strm'), deflate_s = strm'\<rparr>"
    using zc less.prems(2) by (simp add: compress_iter_def)
  have fits: "?sc + length (take ?w rem) \<le> length ?g"
    using grow_ge [of ?sc ?w "coutput s"] by simp
  have len1: "length (coutput ?s1) = length ?g"
    using fits by (simp add: s1 length_store)
  have sc1: "size_compressed ?s1 = ?sc + length (take ?w rem)"
    by (simp add: s1 a)
  have out1: "coutput ?s1 = store ?g ?sc (take ?w rem)"
    by (simp add: s1)
  have tk1: "take (size_compressed ?s1) (coutput ?s1) = take ?sc (coutput s) @ take ?w rem"
    unfolding sc1 out1 using take_store [OF fits] take_grow [OF less.prems(3)] by simp
  show ?case
  proof (cases "?w \<le> length rem")
    case True
    then have a0: "avail_out (deflate_s ?s1) = 0" by (simp add: s1 a)
    have shorter: "length (drop ?w rem) < length rem" using True w by simp
    have e1: "emits (deflate z) good ?w (deflate_s ?s1) (drop ?w rem)"
      using more True by (simp add: s1)
    have le1: "size_compressed ?s1 \<le> length (coutput ?s1)"
      using fits by (simp add: len1 sc1)
    from less.hyps [OF shorter e1 less.prems(2) le1] obtain s' where
      s': "compress_loop z sz ?s1 = Some s'"
        "size_compressed s' = size_compressed ?s1 + length (drop ?w rem)"
        "size_compressed s' \<le> length (coutput s')"
        "take (size_compressed s') (coutput s') = take (size_compressed ?s1) (coutput ?s1) @ drop ?w rem"
      by blast
    have "compress_loop z sz s = Some s'"
      using a0 s'(1) by (subst compress_loop.simps) simp
    moreover have "size_compressed s' = ?sc + length rem"
      using s'(2) True by (simp add: sc1)
    moreover have "take (size_compressed s') (coutput s') = take ?sc (coutput s) @ rem"
      using s'(4) by (simp add: tk1)
    ultimately show ?thesis using s'(3) by blast
  next
    case False
    then have a0: "avail_out (deflate_s ?s1) \<noteq> 0" by (simp add: s1 a)
    have "compress_loop z sz s = Some ?s1"
      using a0 by (subst compress_loop.simps) simp
    moreover have "size_compressed ?s1 = ?sc + length rem"
      using False by (simp add: sc1)
    moreover have "take (size_compressed ?s1) (coutput ?s1) = take ?sc (coutput s) @ rem"
      using False by (simp add: tk1)
    moreover have "size_compressed ?s1 \<le> length (coutput ?s1)"
      using fits by (simp add: len1 sc1)
    ultimately show ?thesis by blast
  qed
qed

lemma stub_inflate_emits_pending:
  assumes "Z_STREAM_END \<in> good" "Z_BUF_ERROR \<in> good" and w: "0 < w"
  shows "take (avail_in strm) (next_in strm) = [] \<Longrightarrow> state strm = rem \<Longrightarrow>
    emits stub_inflate good w strm rem"
proof (induction "length rem" arbitrary: strm rem rule: less_induct)
  case less
  show ?case
  proof (rule emitsI [OF w])
    let ?strm' = "strm\<lparr>next_in := drop (min 0 (avail_in strm)) (next_in strm),
                avail_in := avail_in strm - min 0 (avail_in strm),
                avail_out := w - length (take w (take w rem)),
                msg := None,
                state := drop w rem\<rparr>"
    let ?ret = "if rem \<noteq> [] \<and> length rem \<le> w then Z_STREAM_END else Z_BUF_ERROR"
    have zc: "zcall stub_inflate (strm\<lparr>avail_out := w\<rparr>) Z_FINISH = (?ret, take w rem, ?strm')"
      using less.prems by (simp add: zcall_def stub_inflate_def)
    have "w \<le> length rem \<longrightarrow> emits stub_inflate good w ?strm' (drop w rem)"
    proof
      assume "w \<le> length rem"
      with w have "length (drop w rem) < length rem" by simp
      then show "emits stub_inflate good w ?strm' (drop w rem)"
        using less.prems by (intro less.hyps) simp_all
    qed
    with zc assms(1,2) show "\<exists>ret strm'. zcall stub_inflate (strm\<lparr>avail_out := w\<rparr>) Z_FINISH = (ret, take w rem, strm') \<and>
                ret \<in> good \<and> (w \<le> length rem \<longrightarrow> emits stub_inflate good w strm' (drop w rem))"
      by (intro exI [of _ ?ret] exI [of _ ?strm']) simp
  qed
qed

lemma decompress_loop_emits:
  assumes "emits (inflate z) {Z_STREAM_END, Z_OK, Z_BUF_ERROR} (2 * sz) (inflate_s s) rem"
    and "0 < sz" and "2 * sz < 2 ^ 32"
    and "size_uncompressed s \<le> length (doutput s)"
    and "size_uncompressed s + (length rem div (2 * sz) + 1) * (2 * sz) \<le> mx"
  shows "\<exists>s'. decompress_loop z sz mx s = Some (Inr s') \<and>
           size_uncompressed s' = size_uncompressed s + length rem \<and>
           size_uncompressed s' \<le> length (doutput s') \<and>
           take (size_uncompressed s') (doutput s') = take (size_uncompressed s) (doutput s) @ rem"
  using assms
proof (induction "length rem" arbitrary: s rem rule: less_induct)
  case less
  let ?w = "2 * sz"
  let ?su = "size_uncompressed s"
  have w: "0 < ?w" using less.prems(2) by simp
  have wm: "?w mod 2 ^ 32 = ?w" using less.prems(3) by simp
  from emitsD [OF less.prems(1)] obtain ret strm' where
    zc: "zcall (inflate z) ((inflate_s s)\<lparr>avail_out := ?w\<rparr>) Z_FINISH = (ret, take ?w rem, strm')"
    and ret: "ret \<in> {Z_STREAM_END, Z_OK, Z_BUF_ERROR}"
    and more: "?w \<le> length rem \<longrightarrow> emits (inflate z) {Z_STREAM_END, Z_OK, Z_BUF_ERROR} ?w strm' (drop ?w rem)"
    by blast
  from zcall_window [OF zc] have a: "avail_out strm' = ?w - length (take ?w rem)" by simp
  have "?w \<le> (length rem div ?w + 1) * ?w" by simp
  with less.prems(5) have ceil: "\<not> mx < ?su + ?w" by simp
  let ?g = "resize (doutput s) (?su + ?w)"
  let ?s1 = "\<lparr>doutput = store ?g ?su (take ?w rem),
              size_uncompressed = ?su + (?w - avail_out strm'), inflate_s = strm'\<rparr>"
  have it: "decompress_iter z sz mx s = Inr ?s1"
    using zc ret ceil wm by (auto simp add: decompress_iter_def)
  have fits: "?su + length (take ?w rem) \<le> length ?g" by simp
  have len1: "length (doutput ?s1) = length ?g"
    using fits by (simp add: length_store)
  have sc1: "size_uncompressed ?s1 = ?su + length (take ?w rem)"
    by (simp add: a)
  have tk1: "take (?su + length (take ?w rem)) (doutput ?s1) = take ?su (doutput s) @ take ?w rem"
    using take_store [OF fits] take_resize [OF less.prems(4), of "?su + ?w"] by simp
  show ?case
  proof (cases "?w \<le> length rem")
    case True
    then have a0: "avail_out (inflate_s ?s1) = 0" by (simp add: a)
    have shorter: "length (drop ?w rem) < length rem" using True w by simp
    have e1: "emits (inflate z) {Z_STREAM_END, Z_OK, Z_BUF_ERROR} ?w (inflate_s ?s1) (drop ?w rem)"
      using more True by simp
    have le1: "size_uncompressed ?s1 \<le> length (doutput ?s1)"
      using fits unfolding len1 sc1 .
    have "(length rem - ?w) div ?w + 1 = length rem div ?w"
      using True w by (simp add: le_div_geq)
    then have "size_uncompressed ?s1 + (length (drop ?w rem) div ?w + 1) * ?w
        = ?su + (length rem div ?w + 1) * ?w"
      using True unfolding sc1 by (simp add: min_def)
    with less.prems(5) have c1: "size_uncompressed ?s1 + (length (drop ?w rem) div ?w + 1) * ?w \<le> mx"
      by simp
    from less.hyps [OF shorter e1 less.prems(2) less.prems(3) le1 c1] obtain s' where
      s': "decompress_loop z sz mx ?s1 = Some (Inr s')"
        "size_uncompressed s' = size_uncompressed ?s1 + length (drop ?w rem)"
        "size_uncompressed s' \<le> length (doutput s')"
        "take (size_uncompressed s') (doutput s') =
           take (size_uncompressed ?s1) (doutput ?s1) @ drop ?w rem"
      by blast
    have "decompress_loop z sz mx s = Some (Inr s')"
      using a0 s'(1) it by (subst decompress_loop.simps) simp
    moreover have "size_uncompressed s' = ?su + length rem"
      using s'(2) True unfolding sc1 by simp
    moreover have "take (size_uncompressed s') (doutput s') = take ?su (doutput s) @ rem"
      using s'(4) unfolding sc1 tk1 by simp
    ultimately show ?thesis using s'(3) by blast
  next
    case False
    then have a0: "avail_out (inflate_s ?s1) \<noteq> 0" by (simp add: a)
    have "decompress_loop z sz mx s = Some (Inr ?s1)"
      using a0 it by (subst decompress_loop.simps) simp
    moreover have "size_uncompressed ?s1 = ?su + length rem"
      using False unfolding sc1 by simp
    moreover have "take (size_uncompressed ?s1) (doutput ?s1) = take ?su (doutput s) @ rem"
      using False tk1 unfolding sc1 by simp
    moreover have "size_uncompressed ?s1 \<le> length (doutput ?s1)"
      using fits unfolding len1 sc1 .
    ultimately show ?thesis by blast
  qed
qed

lemma stub_inflate_emits:
  assumes good: "Z_STREAM_END \<in> good" "Z_BUF_ERROR \<in> good"
    and len: "length data + 2 < 2 ^ 32" and w: "0 < w"
  shows "emits stub_inflate good w (inflate_s (dinit out (0x1F # 0x8B # data) st)) data"
proof (rule emitsI [OF w])
  let ?strm = "inflate_s (dinit out (0x1F # 0x8B # data) st)"
  have n: "Suc (Suc (length data)) mod 4294967296 = Suc (Suc (length data))"
    using len by simp
  let ?strm' = "?strm\<lparr>next_in := [], avail_in := 0, avail_out := w - length (take w data),
                msg := None, state := drop w data\<rparr>"
  let ?ret = "if length data \<le> w then Z_STREAM_END else Z_BUF_ERROR"
  have zc: "zcall stub_inflate (?strm\<lparr>avail_out := w\<rparr>) Z_FINISH = (?ret, take w data, ?strm')"
    by (simp add: zcall_def stub_inflate_def dinit_def n)
  have more: "w \<le> length data \<longrightarrow> emits stub_inflate good w ?strm' (drop w data)"
    by (rule impI, rule stub_inflate_emits_pending [OF good w]) simp_all
  have r: "?ret \<in> good" using good by simp
  from zc r more show "\<exists>ret strm'. zcall stub_inflate (?strm\<lparr>avail_out := w\<rparr>) Z_FINISH = (ret, take w data, strm') \<and>
                ret \<in> good \<and> (w \<le> length data \<longrightarrow> emits stub_inflate good w strm' (drop w data))"
    by blast
qed

lemma Compressor_compress_emits:
  assumes init: "deflateInit2 z (level_c self) Z_DEFLATED (15 + 16) 8 Z_DEFAULT_STRATEGY = (Z_OK, st)"
    and em: "emits (deflate z) good (increase (length data)) (deflate_s (cinit out data st)) cs"
    and sz: "length data \<le> max_c self" "length data < 2 ^ 32"
  shows "Compressor_compress z DEBUG self out data = Some (Inr cs)"
proof -
  have inc: "increase (length data) < 2 ^ 32"
    using sz(2) by (simp add: increase_def)
  have "size_compressed (cinit out data st) \<le> length (coutput (cinit out data st))"
    by (simp add: cinit_def)
  from compress_loop_emits [OF em inc this] obtain s' where
    s': "compress_loop z (length data) (cinit out data st) = Some s'"
      "size_compressed s' = length cs" "size_compressed s' \<le> length (coutput s')"
      "take (size_compressed s') (coutput s') = cs"
    by (auto simp add: cinit_def)
  have "resize (coutput s') (size_compressed s') = cs"
    using s'(3,4) by (simp add: resize_idem)
  moreover have "\<not> UINT_MAX < length data"
    using sz(2) by (simp add: UINT_MAX_def)
  ultimately show ?thesis
    using init sz(1) s'(1) by (simp add: Compressor_compress_def)
qed

lemma Decompressor_decompress_emits:
  assumes init: "inflateInit2 z (15 + 32) = (Z_OK, st)"
    and em: "emits (inflate z) {Z_STREAM_END, Z_OK, Z_BUF_ERROR} (2 * length cs)
               (inflate_s (dinit out cs st)) data"
    and sz: "cs \<noteq> []" "2 * length cs < 2 ^ 32"
      "(length data div (2 * length cs) + 1) * (2 * length cs) \<le> max_d self"
  shows "Decompressor_decompress z DEBUG self out cs = Some (Inr data)"
proof -
  have le: "size_uncompressed (dinit out cs st) \<le> length (doutput (dinit out cs st))"
    by (simp add: dinit_def)
  have pos: "0 < length cs" using sz(1) by simp
  have c: "size_uncompressed (dinit out cs st) + (length data div (2 * length cs) + 1) * (2 * length cs) \<le> max_d self"
    using sz(3) by (simp add: dinit_def)
  from decompress_loop_emits [OF em pos sz(2) le c] obtain s' where
    s': "decompress_loop z (length cs) (max_d self) (dinit out cs st) = Some (Inr s')"
      "size_uncompressed s' = length data" "size_uncompressed s' \<le> length (doutput s')"
      "take (size_uncompressed s') (doutput s') = data"
    by (auto simp add: dinit_def)
  have r: "resize (doutput s') (size_uncompressed s') = data"
    using s'(3,4) by (simp add: resize_idem)
  have "2 * length cs \<le> (length data div (2 * length cs) + 1) * (2 * length cs)" by simp
  with sz(3) have m: "2 * length cs \<le> max_d self" by linarith
  have u: "\<not> UINT_MAX < length cs * 2"
    using sz(2) by (simp add: UINT_MAX_def)
  show ?thesis
    using init m u s'(1) r by (simp add: Decompressor_decompress_def mult.commute)
qed


lemma stub_deflate_emits_init:
  "length data < 2 ^ 32 \<Longrightarrow>
   emits (deflate stub) UNIV (increase (length data)) (deflate_s (cinit out data [0x1F, 0x8B]))
     (0x1F # 0x8B # data)"
  unfolding stub_def
  by simp (rule stub_deflate_emits, simp_all add: cinit_def increase_def)


lemma stub_compress:
  assumes "length data \<le> max_c self" "length data < 2 ^ 32"
  shows "Compressor_compress stub DEBUG self out data = Some (Inr (0x1F # 0x8B # data))"
  by (rule Compressor_compress_emits [OF _ stub_deflate_emits_init [OF assms(2)] assms])
     (simp add: stub_def)

lemma stub_decompress:
  assumes "length data + 2 < 2 ^ 31"
     and "(length data div (2 * (length data + 2)) + 1) * (2 * (length data + 2)) \<le> max_d self"
  shows "Decompressor_decompress stub DEBUG self out (0x1F # 0x8B # data) = Some (Inr data)"
proof -
  have 1: "inflateInit2 stub (15 + 32) = (Z_OK, [])" by (simp add: stub_def)
  have "emits stub_inflate {Z_STREAM_END, Z_OK, Z_BUF_ERROR} (2 * length (0x1F # 0x8B # data))
          (inflate_s (dinit out (0x1F # 0x8B # data) [])) data"
    using assms(1) by (intro stub_inflate_emits) simp_all
  then have 2: "emits (inflate stub) {Z_STREAM_END, Z_OK, Z_BUF_ERROR}
          (2 * length (0x1F # 0x8B # data)) (inflate_s (dinit out (0x1F # 0x8B # data) [])) data"
    by (simp add: stub_def)
  show ?thesis
    using assms by (intro Decompressor_decompress_emits [OF 1 2]) simp_all
qed


subsection \<open>A run that the ceiling cuts short\<close>

lemma decompress_loop_emits_refused:
  assumes "emits (inflate z) {Z_STREAM_END, Z_OK, Z_BUF_ERROR} (2 * sz) (inflate_s s) rem"
    and "2 * sz < 2 ^ 32"
    and "mx < size_uncompressed s + (length rem div (2 * sz) + 1) * (2 * sz)"
  shows "\<exists>c. decompress_loop z sz mx s = Some (Inl (Runtime_error
           ''size of output string will use more memory then intended when decompressing'', c))"
  using assms
proof (induction "length rem" arbitrary: s rem rule: less_induct)
  case less
  let ?w = "2 * sz"
  let ?su = "size_uncompressed s"
  show ?case
  proof (cases "mx < ?su + ?w")
    case True
    then have "decompress_iter z sz mx s = Inl (Runtime_error
        ''size of output string will use more memory then intended when decompressing'', doutput s)"
      by (simp add: decompress_iter_def)
    then have "decompress_loop z sz mx s = Some (Inl (Runtime_error
        ''size of output string will use more memory then intended when decompressing'', doutput s))"
      by (subst decompress_loop.simps) simp
    then show ?thesis by blast
  next
    case False
    have wm: "?w mod 2 ^ 32 = ?w" using less.prems(2) by simp
    from emitsD [OF less.prems(1)] obtain ret strm' where
      w: "0 < ?w"
      and zc: "zcall (inflate z) ((inflate_s s)\<lparr>avail_out := ?w\<rparr>) Z_FINISH = (ret, take ?w rem, strm')"
      and ret: "ret \<in> {Z_STREAM_END, Z_OK, Z_BUF_ERROR}"
      and more: "?w \<le> length rem \<longrightarrow>
        emits (inflate z) {Z_STREAM_END, Z_OK, Z_BUF_ERROR} ?w strm' (drop ?w rem)"
      by blast
    have full: "?w \<le> length rem"
    proof (rule ccontr)
      assume "\<not> ?w \<le> length rem"
      then have "length rem div ?w = 0" by simp
      with less.prems(3) False show False by simp
    qed
    from zcall_window [OF zc] have a: "avail_out strm' = ?w - length (take ?w rem)" by simp
    let ?g = "resize (doutput s) (?su + ?w)"
    let ?s1 = "\<lparr>doutput = store ?g ?su (take ?w rem),
                size_uncompressed = ?su + (?w - avail_out strm'), inflate_s = strm'\<rparr>"
    have it: "decompress_iter z sz mx s = Inr ?s1"
      using zc ret False wm by (auto simp add: decompress_iter_def)
    have a0: "avail_out (inflate_s ?s1) = 0" using full by (simp add: a)
    have sc1: "size_uncompressed ?s1 = ?su + ?w" using full by (simp add: a)
    have shorter: "length (drop ?w rem) < length rem" using full w by simp
    have e1: "emits (inflate z) {Z_STREAM_END, Z_OK, Z_BUF_ERROR} ?w (inflate_s ?s1) (drop ?w rem)"
      using more full by simp
    have "(length rem - ?w) div ?w + 1 = length rem div ?w"
      using full w by (simp add: le_div_geq)
    then have "size_uncompressed ?s1 + (length (drop ?w rem) div ?w + 1) * ?w
        = ?su + (length rem div ?w + 1) * ?w"
      unfolding sc1 by simp
    with less.prems(3) have c1: "mx < size_uncompressed ?s1 + (length (drop ?w rem) div ?w + 1) * ?w"
      by simp
    from less.hyps [OF shorter e1 less.prems(2) c1] obtain c where
      "decompress_loop z sz mx ?s1 = Some (Inl (Runtime_error
         ''size of output string will use more memory then intended when decompressing'', c))"
      by blast
    then have "decompress_loop z sz mx s = Some (Inl (Runtime_error
         ''size of output string will use more memory then intended when decompressing'', c))"
      using a0 it by (subst decompress_loop.simps) simp
    then show ?thesis by blast
  qed
qed

lemma Decompressor_decompress_emits_refused:
  assumes init: "inflateInit2 z (15 + 32) = (Z_OK, st)"
    and em: "emits (inflate z) {Z_STREAM_END, Z_OK, Z_BUF_ERROR} (2 * length cs)
               (inflate_s (dinit out cs st)) data"
    and sz: "2 * length cs < 2 ^ 32" "2 * length cs \<le> max_d self"
      "max_d self < (length data div (2 * length cs) + 1) * (2 * length cs)"
  shows "\<exists>c. Decompressor_decompress z DEBUG self out cs = Some (Inl (Runtime_error
           ''size of output string will use more memory then intended when decompressing'', c))"
proof -
  have c: "max_d self < size_uncompressed (dinit out cs st)
      + (length data div (2 * length cs) + 1) * (2 * length cs)"
    using sz(3) by (simp add: dinit_def)
  from decompress_loop_emits_refused [OF em sz(1) c] obtain c where
    l: "decompress_loop z (length cs) (max_d self) (dinit out cs st) = Some (Inl (Runtime_error
         ''size of output string will use more memory then intended when decompressing'', c))"
    by blast
  have u: "\<not> UINT_MAX < length cs * 2"
    using sz(1) by (simp add: UINT_MAX_def)
  have "Decompressor_decompress z DEBUG self out cs = Some (Inl (Runtime_error
         ''size of output string will use more memory then intended when decompressing'', c))"
    using init sz(2) u l by (simp add: Decompressor_decompress_def mult.commute)
  then show ?thesis by blast
qed

lemma Decompressor_decompress_refused_at_once:
  assumes init: "inflateInit2 z (15 + 32) = (Z_OK, st)"
    and sz: "2 * length cs < 2 ^ 32" "max_d self < 2 * length cs"
  shows "Decompressor_decompress z DEBUG self out cs = Some (Inl (Runtime_error
           ''size may use more memory than intended when decompressing'', out))"
proof -
  have u: "\<not> UINT_MAX < length cs * 2"
    using sz(1) by (simp add: UINT_MAX_def)
  show ?thesis
    using init sz(2) u by (simp add: Decompressor_decompress_def mult.commute)
qed

subsection \<open>The vector instance on a non-empty input\<close>

lemma decompress_loop_vector_Some:
  assumes "decompress_loop_vector z sz mx s = Some r"
  shows "0 < sz \<longrightarrow> decompress_loop z sz mx s = Some r"
proof (rule decompress_loop_vector.raw_induct [where P = "\<lambda>z sz mx s r.
    0 < sz \<longrightarrow> decompress_loop z sz mx s = Some r", OF _ assms])
  fix loop :: "'a zlib \<Rightarrow> nat \<Rightarrow> nat \<Rightarrow> 'a dloop \<Rightarrow> (error \<times> byte list + 'a dloop) option"
  fix z sz mx s r
  assume IH: "\<And>z sz mx s r. loop z sz mx s = Some r \<Longrightarrow>
      0 < sz \<longrightarrow> decompress_loop z sz mx s = Some r"
    and body: "(case decompress_iter_vector z sz mx s of Inl e \<Rightarrow> Some (Inl e)
      | Inr s' \<Rightarrow> if avail_out (inflate_s s') = 0 then loop z sz mx s' else Some (Inr s')) = Some r"
  show "0 < sz \<longrightarrow> decompress_loop z sz mx s = Some r"
  proof
    assume pos: "0 < sz"
    then have iv: "decompress_iter_vector z sz mx s = decompress_iter z sz mx s"
      by (simp add: decompress_iter_vector_def)
    show "decompress_loop z sz mx s = Some r"
    proof (cases "decompress_iter z sz mx s")
      case (Inl e)
      with body iv have "r = Inl e" by simp
      with Inl show ?thesis by (subst decompress_loop.simps) simp
    next
      case (Inr s')
      show ?thesis
      proof (cases "avail_out (inflate_s s') = 0")
        case True
        with body iv Inr have "loop z sz mx s' = Some r" by simp
        from IH [OF this] pos have "decompress_loop z sz mx s' = Some r" by simp
        with Inr True show ?thesis by (subst decompress_loop.simps) simp
      next
        case False
        with body iv Inr have "r = Inr s'" by simp
        with Inr False show ?thesis by (subst decompress_loop.simps) simp
      qed
    qed
  qed
qed

lemma decompress_loop_Some_vector:
  assumes "decompress_loop z sz mx s = Some r"
  shows "0 < sz \<longrightarrow> decompress_loop_vector z sz mx s = Some r"
proof (rule decompress_loop.raw_induct [where P = "\<lambda>z sz mx s r.
    0 < sz \<longrightarrow> decompress_loop_vector z sz mx s = Some r", OF _ assms])
  fix loop :: "'a zlib \<Rightarrow> nat \<Rightarrow> nat \<Rightarrow> 'a dloop \<Rightarrow> (error \<times> byte list + 'a dloop) option"
  fix z sz mx s r
  assume IH: "\<And>z sz mx s r. loop z sz mx s = Some r \<Longrightarrow>
      0 < sz \<longrightarrow> decompress_loop_vector z sz mx s = Some r"
    and body: "(case decompress_iter z sz mx s of Inl e \<Rightarrow> Some (Inl e)
      | Inr s' \<Rightarrow> if avail_out (inflate_s s') = 0 then loop z sz mx s' else Some (Inr s')) = Some r"
  show "0 < sz \<longrightarrow> decompress_loop_vector z sz mx s = Some r"
  proof
    assume pos: "0 < sz"
    then have iv: "decompress_iter_vector z sz mx s = decompress_iter z sz mx s"
      by (simp add: decompress_iter_vector_def)
    show "decompress_loop_vector z sz mx s = Some r"
    proof (cases "decompress_iter z sz mx s")
      case (Inl e)
      with body have "r = Inl e" by simp
      with Inl iv show ?thesis by (subst decompress_loop_vector.simps) simp
    next
      case (Inr s')
      show ?thesis
      proof (cases "avail_out (inflate_s s') = 0")
        case True
        with body Inr have "loop z sz mx s' = Some r" by simp
        from IH [OF this] pos have "decompress_loop_vector z sz mx s' = Some r" by simp
        with Inr iv True show ?thesis by (subst decompress_loop_vector.simps) simp
      next
        case False
        with body Inr have "r = Inr s'" by simp
        with Inr iv False show ?thesis by (subst decompress_loop_vector.simps) simp
      qed
    qed
  qed
qed

lemma decompress_loop_vector_eq:
  assumes "0 < sz"
  shows "decompress_loop_vector z sz mx s = decompress_loop z sz mx s"
proof (cases "decompress_loop_vector z sz mx s")
  case None
  show ?thesis
  proof (cases "decompress_loop z sz mx s")
    case (Some r)
    from decompress_loop_Some_vector [OF this] assms None show ?thesis by simp
  qed (simp add: None)
next
  case (Some r)
  from decompress_loop_vector_Some [OF this] assms Some show ?thesis by simp
qed

lemma Decompressor_decompress_vector_eq:
  assumes "data \<noteq> []"
  shows "Decompressor_decompress_vector z DEBUG self out data =
         Decompressor_decompress z DEBUG self out data"
proof -
  from assms have "0 < length data" by simp
  then have eq: "decompress_loop_vector z (length data) mx s = decompress_loop z (length data) mx s"
    for mx s by (rule decompress_loop_vector_eq)
  show ?thesis
    unfolding Decompressor_decompress_vector_def Decompressor_decompress_def eq ..
qed

lemma gzip_decompress_vector_eq:
  "data \<noteq> [] \<Longrightarrow> gzip_decompress_vector z DEBUG data max_bytes = gzip_decompress z DEBUG data max_bytes"
  by (simp add: gzip_decompress_vector_def gzip_decompress_def Decompressor_decompress_vector_eq)

subsection \<open>The stand-in that compresses\<close>

lemma runs_inflate_emits_pending:
  assumes "Z_STREAM_END \<in> good" "Z_BUF_ERROR \<in> good" and w: "0 < w"
  shows "take (avail_in strm) (next_in strm) = [] \<Longrightarrow> state strm = rem \<Longrightarrow>
    emits runs_inflate good w strm rem"
proof (induction "length rem" arbitrary: strm rem rule: less_induct)
  case less
  show ?case
  proof (rule emitsI [OF w])
    let ?strm' = "strm\<lparr>next_in := drop (min 0 (avail_in strm)) (next_in strm),
                avail_in := avail_in strm - min 0 (avail_in strm),
                avail_out := w - length (take w (take w rem)),
                msg := None,
                state := drop w rem\<rparr>"
    let ?ret = "if length rem \<le> w then Z_STREAM_END else Z_BUF_ERROR"
    have zc: "zcall runs_inflate (strm\<lparr>avail_out := w\<rparr>) Z_FINISH = (?ret, take w rem, ?strm')"
      using less.prems by (simp add: zcall_def runs_inflate_def del: take_eq_Nil)
    have "w \<le> length rem \<longrightarrow> emits runs_inflate good w ?strm' (drop w rem)"
    proof
      assume "w \<le> length rem"
      with w have "length (drop w rem) < length rem" by simp
      then show "emits runs_inflate good w ?strm' (drop w rem)"
        using less.prems by (intro less.hyps) simp_all
    qed
    with zc assms(1,2) show "\<exists>ret strm'. zcall runs_inflate (strm\<lparr>avail_out := w\<rparr>) Z_FINISH = (ret, take w rem, strm') \<and>
                ret \<in> good \<and> (w \<le> length rem \<longrightarrow> emits runs_inflate good w strm' (drop w rem))"
      by (intro exI [of _ ?ret] exI [of _ ?strm']) simp
  qed
qed

lemma runs_inflate_emits:
  assumes good: "Z_STREAM_END \<in> good" "Z_BUF_ERROR \<in> good" and w: "0 < w"
  shows "emits runs_inflate good w (inflate_s (dinit out [0x1F, 0x8B, k, b] st))
           (replicate (unat k) b)"
proof (rule emitsI [OF w])
  let ?strm = "inflate_s (dinit out [0x1F, 0x8B, k, b] st)"
  let ?data = "replicate (unat k) b"
  let ?strm' = "?strm\<lparr>next_in := [], avail_in := 0, avail_out := w - length (take w ?data),
                msg := None, state := drop w ?data\<rparr>"
  let ?ret = "if length ?data \<le> w then Z_STREAM_END else Z_BUF_ERROR"
  have zc: "zcall runs_inflate (?strm\<lparr>avail_out := w\<rparr>) Z_FINISH = (?ret, take w ?data, ?strm')"
    by (simp add: zcall_def runs_inflate_def dinit_def)
  have more: "w \<le> length ?data \<longrightarrow> emits runs_inflate good w ?strm' (drop w ?data)"
    by (rule impI, rule runs_inflate_emits_pending [OF good w]) simp_all
  have r: "?ret \<in> good" using good by simp
  from zc r more show "\<exists>ret strm'. zcall runs_inflate (?strm\<lparr>avail_out := w\<rparr>) Z_FINISH = (ret, take w ?data, strm') \<and>
                ret \<in> good \<and> (w \<le> length ?data \<longrightarrow> emits runs_inflate good w strm' (drop w ?data))"
    by blast
qed

lemma runs_deflate_emits_init:
  assumes "0 < n" "n < 256"
  shows "emits (deflate runs) UNIV (increase (length (replicate n b)))
           (deflate_s (cinit out (replicate n b) [0x1F, 0x8B])) [0x1F, 0x8B, of_nat n, b]"
proof -
  let ?strm = "deflate_s (cinit out (replicate n b) [0x1F, 0x8B])"
  obtain strm' where "zcall runs_deflate (?strm\<lparr>avail_out := increase (length (replicate n b))\<rparr>) Z_FINISH =
      (Z_STREAM_END, [0x1F, 0x8B, of_nat n, b], strm')"
    using assms by (simp add: zcall_def runs_deflate_def cinit_def increase_def)
  then have "emits runs_deflate UNIV (increase (length (replicate n b))) ?strm [0x1F, 0x8B, of_nat n, b]"
    by (intro emits_last [where ret = Z_STREAM_END and strm' = strm']) (simp_all add: increase_def)
  then show ?thesis by (simp add: runs_def)
qed


section \<open>Round trip\<close>

text \<open>
  C1, as stated, fails: a buffer within the ceiling need not come back. Take the twenty
  bytes \<open>0x01, \<dots>, 0x14\<close> and configure the ceiling of \<^verbatim>\<open>gzip::decompress\<close>
  as \<open>43\<close>. The buffer is within the ceiling, and so is its compressed form;
  decompressing it is refused by the first size check, because twice the compressed size
  exceeds the ceiling. (The compressed form has 22 bytes with the stand-in codec; with
  zlib it has 40 bytes at the default level and 43 at level 0. Each is within the
  ceiling, and twice each exceeds it.)
\<close>

theorem roundtrip_refused_by_decompress_ceiling_counterexample:
  "length [0x01, 0x02, 0x03, 0x04, 0x05, 0x06, 0x07, 0x08, 0x09, 0x0A,
           0x0B, 0x0C, 0x0D, 0x0E, 0x0F, 0x10, 0x11, 0x12, 0x13, 0x14 :: byte] \<le> 43 \<and>
   gzip_compress stub False
     [0x01, 0x02, 0x03, 0x04, 0x05, 0x06, 0x07, 0x08, 0x09, 0x0A,
      0x0B, 0x0C, 0x0D, 0x0E, 0x0F, 0x10, 0x11, 0x12, 0x13, 0x14] Z_DEFAULT_COMPRESSION =
     Some (Inr [0x1F, 0x8B, 0x01, 0x02, 0x03, 0x04, 0x05, 0x06, 0x07, 0x08, 0x09, 0x0A,
                0x0B, 0x0C, 0x0D, 0x0E, 0x0F, 0x10, 0x11, 0x12, 0x13, 0x14]) \<and>
   length [0x1F, 0x8B, 0x01, 0x02, 0x03, 0x04, 0x05, 0x06, 0x07, 0x08, 0x09, 0x0A,
           0x0B, 0x0C, 0x0D, 0x0E, 0x0F, 0x10, 0x11, 0x12, 0x13, 0x14 :: byte] \<le> 43 \<and>
   gzip_decompress stub False
     [0x1F, 0x8B, 0x01, 0x02, 0x03, 0x04, 0x05, 0x06, 0x07, 0x08, 0x09, 0x0A,
      0x0B, 0x0C, 0x0D, 0x0E, 0x0F, 0x10, 0x11, 0x12, 0x13, 0x14] 43 =
     Some (Inl (Runtime_error ''size may use more memory than intended when decompressing''))"
proof -
  let ?data = "[0x01, 0x02, 0x03, 0x04, 0x05, 0x06, 0x07, 0x08, 0x09, 0x0A,
                0x0B, 0x0C, 0x0D, 0x0E, 0x0F, 0x10, 0x11, 0x12, 0x13, 0x14] :: byte list"
  have "Compressor_compress stub False (new_Compressor Z_DEFAULT_COMPRESSION 2000000000) [] ?data =
      Some (Inr (0x1F # 0x8B # ?data))"
    by (rule stub_compress) (simp_all add: new_Compressor_def)
  then have 1: "gzip_compress stub False ?data Z_DEFAULT_COMPRESSION = Some (Inr (0x1F # 0x8B # ?data))"
    by (simp add: gzip_compress_def)
  have 2: "gzip_decompress stub False (0x1F # 0x8B # ?data) 43 =
     Some (Inl (Runtime_error ''size may use more memory than intended when decompressing''))"
    by (simp add: gzip_decompress_def Decompressor_decompress_def
        new_Decompressor_def stub_def Z_OK_def)
  from 1 2 show ?thesis by simp
qed

text \<open>
  C1, amended. Let the codec be sound on \<open>data\<close> at the given level: both
  initialisations succeed (the level is one the codec accepts), \<^verbatim>\<open>deflate\<close>
  hands out the stream \<open>cs\<close> for \<open>data\<close> through the windows of
  \<open>size / 2 + 1024\<close> bytes that the compress loop offers, and \<^verbatim>\<open>inflate\<close>
  hands out \<open>data\<close> for \<open>cs\<close> through the windows of twice the size of \<open>cs\<close>
  that the decompress loop offers. Let \<open>data\<close> be within the ceiling of
  \<^verbatim>\<open>gzip::compress\<close> (\<open>2000000000\<close>) and let twice the size of \<open>cs\<close> fit
  in an \<^verbatim>\<open>unsigned int\<close>. Then \<^verbatim>\<open>gzip::compress\<close> returns \<open>cs\<close>,
  and what \<^verbatim>\<open>gzip::decompress\<close> makes of \<open>cs\<close> is decided by its ceiling:
  with \<open>n\<close> bytes of data and \<open>c\<close> compressed bytes, it returns \<open>data\<close>
  when the ceiling admits the last resize of the run, which is to
  \<open>(n div 2c + 1) * 2c\<close> bytes; it is refused by the first size check when the ceiling
  is below \<open>2c\<close>, and by the check in the loop otherwise. This holds for every such
  level, with and without \<^verbatim>\<open>DEBUG\<close>, and for the pointer, string and vector
  overloads.
\<close>

theorem roundtrip_of_sound_codec:
  assumes "deflateInit2 z level Z_DEFLATED (15 + 16) 8 Z_DEFAULT_STRATEGY = (Z_OK, dst)"
    and "emits (deflate z) UNIV (increase (length data)) (deflate_s (cinit [] data dst)) cs"
    and "inflateInit2 z (15 + 32) = (Z_OK, ist)"
    and "emits (inflate z) {Z_STREAM_END, Z_OK, Z_BUF_ERROR} (2 * length cs)
           (inflate_s (dinit [] cs ist)) data"
    and "length data \<le> 2000000000"
    and "2 * length cs < 2 ^ 32"
  shows "gzip_compress z DEBUG data level = Some (Inr cs) \<and>
         gzip_compress_string z DEBUG data level = Some (Inr cs) \<and>
         gzip_compress_vector z DEBUG data level = Some (Inr cs) \<and>
         gzip_decompress z DEBUG cs max_bytes =
           (if max_bytes < 2 * length cs
            then Some (Inl (Runtime_error
                   ''size may use more memory than intended when decompressing''))
            else if max_bytes < (length data div (2 * length cs) + 1) * (2 * length cs)
            then Some (Inl (Runtime_error
                   ''size of output string will use more memory then intended when decompressing''))
            else Some (Inr data)) \<and>
         gzip_decompress_string z DEBUG cs max_bytes = gzip_decompress z DEBUG cs max_bytes \<and>
         gzip_decompress_vector z DEBUG cs max_bytes = gzip_decompress z DEBUG cs max_bytes"
proof -
  have inc: "length data < 2 ^ 32"
    using assms(5) by simp
  have c: "Compressor_compress z DEBUG (new_Compressor level 2000000000) [] data = Some (Inr cs)"
    using assms(1) assms(5)
    by (intro Compressor_compress_emits [OF _ assms(2) _ inc]) (simp_all add: new_Compressor_def)
  from emitsD [OF assms(4)] have ne: "cs \<noteq> []" by auto
  let ?self = "new_Decompressor max_bytes"
  let ?bound = "(length data div (2 * length cs) + 1) * (2 * length cs)"
  have mx: "max_d ?self = max_bytes" by (simp add: new_Decompressor_def)
  have d: "gzip_decompress z DEBUG cs max_bytes =
           (if max_bytes < 2 * length cs
            then Some (Inl (Runtime_error
                   ''size may use more memory than intended when decompressing''))
            else if max_bytes < ?bound
            then Some (Inl (Runtime_error
                   ''size of output string will use more memory then intended when decompressing''))
            else Some (Inr data))"
  proof (cases "max_bytes < 2 * length cs")
    case True
    then have "max_d ?self < 2 * length cs" by (simp add: mx)
    from Decompressor_decompress_refused_at_once [OF assms(3) assms(6) this]
    show ?thesis using True by (simp add: gzip_decompress_def)
  next
    case False
    show ?thesis
    proof (cases "max_bytes < ?bound")
      case True
      have "2 * length cs \<le> max_d ?self" using False by (simp add: mx)
      moreover have "max_d ?self < ?bound" using True by (simp add: mx)
      ultimately obtain c where "Decompressor_decompress z DEBUG ?self [] cs = Some (Inl (Runtime_error
           ''size of output string will use more memory then intended when decompressing'', c))"
        using Decompressor_decompress_emits_refused [OF assms(3) assms(4) assms(6)] by blast
      then show ?thesis using True False by (simp add: gzip_decompress_def)
    next
      case nb: False
      then have "?bound \<le> max_d ?self" by (simp add: mx)
      from Decompressor_decompress_emits [OF assms(3) assms(4) ne assms(6) this]
      show ?thesis using False nb by (simp add: gzip_decompress_def)
    qed
  qed
  have "gzip_compress z DEBUG data level = Some (Inr cs)"
    by (simp add: gzip_compress_def c)
  moreover have "gzip_compress_string z DEBUG data level = Some (Inr cs)"
    by (simp add: gzip_compress_string_def gzip_compress_def c)
  moreover have "gzip_compress_vector z DEBUG data level = Some (Inr cs)"
    by (simp add: gzip_compress_vector_def gzip_compress_def c)
  moreover have "gzip_decompress_string z DEBUG cs max_bytes = gzip_decompress z DEBUG cs max_bytes"
    by (simp add: gzip_decompress_string_def)
  moreover have "gzip_decompress_vector z DEBUG cs max_bytes = gzip_decompress z DEBUG cs max_bytes"
    using ne by (rule gzip_decompress_vector_eq)
  ultimately show ?thesis using d by blast
qed

text \<open>
  An instance: forty bytes \<open>0x61\<close> through the stand-in that compresses. The
  compressed form has four bytes, so the decompress loop offers windows of eight bytes
  and takes six passes, the last resize being to 48 bytes. The run returns the forty
  bytes with the default ceiling and with a ceiling of 48; with a ceiling of 47 it is
  refused in the loop, and with a ceiling of 7 by the first check.
\<close>

theorem roundtrip_of_sound_codec_witness:
  "gzip_compress runs False (replicate 40 0x61) 6 = Some (Inr [0x1F, 0x8B, 40, 0x61]) \<and>
   gzip_compress_vector runs False (replicate 40 0x61) 6 = Some (Inr [0x1F, 0x8B, 40, 0x61]) \<and>
   gzip_decompress runs False [0x1F, 0x8B, 40, 0x61] 2000000000 = Some (Inr (replicate 40 0x61)) \<and>
   gzip_decompress_vector runs False [0x1F, 0x8B, 40, 0x61] 48 = Some (Inr (replicate 40 0x61)) \<and>
   gzip_decompress runs False [0x1F, 0x8B, 40, 0x61] 47 =
     Some (Inl (Runtime_error
       ''size of output string will use more memory then intended when decompressing'')) \<and>
   gzip_decompress runs False [0x1F, 0x8B, 40, 0x61] 7 =
     Some (Inl (Runtime_error ''size may use more memory than intended when decompressing''))"
proof -
  let ?data = "replicate 40 0x61 :: byte list"
  let ?cs = "[0x1F, 0x8B, 40, 0x61] :: byte list"
  have 1: "deflateInit2 runs 6 Z_DEFLATED (15 + 16) 8 Z_DEFAULT_STRATEGY = (Z_OK, [0x1F, 0x8B])"
    by (simp add: runs_def)
  have "emits (deflate runs) UNIV (increase (length (replicate 40 (0x61 :: byte))))
          (deflate_s (cinit [] (replicate 40 0x61) [0x1F, 0x8B])) [0x1F, 0x8B, of_nat 40, 0x61]"
    by (rule runs_deflate_emits_init) simp_all
  then have 2: "emits (deflate runs) UNIV (increase (length ?data))
          (deflate_s (cinit [] ?data [0x1F, 0x8B])) ?cs"
    by simp
  have 3: "inflateInit2 runs (15 + 32) = (Z_OK, [])"
    by (simp add: runs_def)
  have "emits runs_inflate {Z_STREAM_END, Z_OK, Z_BUF_ERROR} (2 * length ?cs)
          (inflate_s (dinit [] [0x1F, 0x8B, 40, 0x61] [])) (replicate (unat (40 :: byte)) 0x61)"
    by (rule runs_inflate_emits) simp_all
  then have 4: "emits (inflate runs) {Z_STREAM_END, Z_OK, Z_BUF_ERROR} (2 * length ?cs)
          (inflate_s (dinit [] ?cs [])) ?data"
    by (simp add: runs_def)
  have 5: "length ?data \<le> 2000000000" by simp
  have 6: "2 * length ?cs < 2 ^ 32" by simp
  note r = roundtrip_of_sound_codec [OF 1 2 3 4 5 6, where DEBUG = False]
  from r [where max_bytes = 2000000000] r [where max_bytes = 48] r [where max_bytes = 47]
    r [where max_bytes = 7]
  show ?thesis by simp
qed

section \<open>The size ceiling\<close>

lemma Decompressor_decompress_Inr:
  assumes "Decompressor_decompress z DEBUG self out data = Some (Inr r)"
  shows "length data \<le> max_d self \<and> 2 * length data \<le> max_d self \<and> length r \<le> max_d self"
proof -
  obtain ret st where init: "inflateInit2 z (15 + 32) = (ret, st)"
    by (cases "inflateInit2 z (15 + 32)")
  from assms init have ok: "length data \<le> max_d self" "2 * length data \<le> max_d self"
    by (auto simp add: Decompressor_decompress_def split: if_splits)
  from assms init obtain s where
    loop: "decompress_loop z (length data) (max_d self) (dinit out data st) = Some (Inr s)"
    and r: "r = resize (doutput s) (size_uncompressed s)"
    by (auto simp add: Decompressor_decompress_def split: if_splits option.splits sum.splits)
  from decompress_loop_last_pass [OF loop] obtain t where
    "decompress_iter z (length data) (max_d self) t = Inr s" by blast
  from decompress_iter_Inr(1,2,3) [OF this] have "size_uncompressed s \<le> max_d self" by linarith
  with ok r show ?thesis by simp
qed


text \<open>
  C3, as stated, fails for compress: its output container is never compared with the
  ceiling. With a ceiling of \<open>100\<close> bytes and the empty input, the first pass of
  the loop resizes the container to \<open>1024\<close> bytes, nothing is thrown, and the call
  returns.
\<close>

theorem compress_output_exceeds_ceiling_counterexample:
  "deflateInit2 stub 6 Z_DEFLATED (15 + 16) 8 Z_DEFAULT_STRATEGY = (Z_OK, [0x1F, 0x8B]) \<and>
   length (coutput (compress_iter stub (length ([] :: byte list)) (cinit [] [] [0x1F, 0x8B]))) = 1024 \<and>
   max_c (new_Compressor 6 100) = 100 \<and>
   Compressor_compress stub False (new_Compressor 6 100) [] [] = Some (Inr [0x1F, 0x8B])"
proof -
  have "Compressor_compress stub False (new_Compressor 6 100) [] [] = Some (Inr [0x1F, 0x8B])"
    by (rule stub_compress) (simp_all add: new_Compressor_def)
  moreover have "length (coutput (compress_iter stub (length ([] :: byte list)) (cinit [] [] [0x1F, 0x8B]))) = 1024"
    by (simp add: compress_iter_def zcall_def stub_def stub_deflate_def cinit_def increase_def
        length_store grow_def)
  ultimately show ?thesis by (simp add: stub_def new_Compressor_def)
qed

text \<open>
  C3, amended. The input size never exceeds the ceiling in a compress or decompress
  operation that returns. In decompress the output stays within the ceiling throughout:
  every pass of the loop that is not refused resizes the container to
  \<open>size_uncompressed + 2 * size\<close> bytes, which is at most the ceiling, a pass that
  would exceed it throws before it resizes, a pass that throws on a codec error leaves a
  container within the ceiling, and the output returned is within the ceiling. (Compress
  puts no ceiling on its output.)
\<close>

theorem ceiling_holds_for_inputs_and_decompress_output:
  "(Compressor_compress z DEBUG cself out data = Some (Inr r) \<longrightarrow> length data \<le> max_c cself) \<and>
   (Decompressor_decompress z DEBUG dself out data = Some (Inr r') \<longrightarrow>
      length data \<le> max_d dself \<and> length r' \<le> max_d dself) \<and>
   (decompress_iter z sz mx s = Inr s' \<longrightarrow>
      length (doutput s') = size_uncompressed s + 2 * sz \<and> length (doutput s') \<le> mx \<and>
      size_uncompressed s' \<le> mx) \<and>
   (decompress_iter z sz mx s = Inl (e, out') \<longrightarrow> out' = doutput s \<or> length out' \<le> mx) \<and>
   (mx < size_uncompressed s + 2 * sz \<longrightarrow>
      (\<exists>m. decompress_iter z sz mx s = Inl (Runtime_error m, doutput s)))"
proof (intro conjI impI)
  assume "Compressor_compress z DEBUG cself out data = Some (Inr r)"
  then show "length data \<le> max_c cself"
    by (simp add: Compressor_compress_def split: if_splits)
next
  assume a: "Decompressor_decompress z DEBUG dself out data = Some (Inr r')"
  from Decompressor_decompress_Inr [OF a]
  show "length data \<le> max_d dself" and "length r' \<le> max_d dself" by simp_all
next
  assume a: "decompress_iter z sz mx s = Inr s'"
  from decompress_iter_Inr [OF a]
  show "length (doutput s') = size_uncompressed s + 2 * sz" and "length (doutput s') \<le> mx"
    and "size_uncompressed s' \<le> mx" by simp_all
next
  assume "decompress_iter z sz mx s = Inl (e, out')"
  then show "out' = doutput s \<or> length out' \<le> mx" by (rule decompress_iter_Inl)
next
  assume "mx < size_uncompressed s + 2 * sz"
  then show "\<exists>m. decompress_iter z sz mx s = Inl (Runtime_error m, doutput s)"
    by (simp add: decompress_iter_def)
qed


theorem ceiling_holds_for_inputs_and_decompress_output_witness:
  "Compressor_compress stub False (new_Compressor 6 100) [] [1, 2, 3] = Some (Inr [0x1F, 0x8B, 1, 2, 3]) \<and>
   length [1, 2, 3 :: byte] \<le> max_c (new_Compressor 6 100) \<and>
   Decompressor_decompress stub False (new_Decompressor 100) [] [0x1F, 0x8B, 1, 2, 3] = Some (Inr [1, 2, 3]) \<and>
   length [0x1F, 0x8B, 1, 2, 3 :: byte] \<le> max_d (new_Decompressor 100) \<and>
   length [1, 2, 3 :: byte] \<le> max_d (new_Decompressor 100) \<and>
   (\<exists>s'. decompress_iter stub 5 100 (dinit [] [0x1F, 0x8B, 1, 2, 3] []) = Inr s' \<and>
      length (doutput s') = 10 \<and> size_uncompressed s' \<le> 100) \<and>
   decompress_iter stub 5 9 (dinit [] [0x1F, 0x8B, 1, 2, 3] []) =
     Inl (Runtime_error
            ''size of output string will use more memory then intended when decompressing'', []) \<and>
   (\<exists>e out'. decompress_iter stub 3 100 (dinit [] [0x78, 0x9C, 1] []) = Inl (e, out') \<and>
      length out' \<le> 100)"
proof -
  have c: "Compressor_compress stub False (new_Compressor 6 100) [] [1, 2, 3] = Some (Inr [0x1F, 0x8B, 1, 2, 3])"
    by (rule stub_compress) (simp_all add: new_Compressor_def)
  have d: "Decompressor_decompress stub False (new_Decompressor 100) [] [0x1F, 0x8B, 1, 2, 3] = Some (Inr [1, 2, 3])"
    by (rule stub_decompress) (simp_all add: new_Decompressor_def)
  obtain s' where i: "decompress_iter stub 5 100 (dinit [] [0x1F, 0x8B, 1, 2, 3] []) = Inr s'"
    by (simp add: decompress_iter_def zcall_def stub_def stub_inflate_def dinit_def
        Z_STREAM_END_def Z_OK_def Z_BUF_ERROR_def)
  obtain e out' where t: "decompress_iter stub 3 100 (dinit [] [0x78, 0x9C, 1] []) = Inl (e, out')"
    by (simp add: decompress_iter_def zcall_def stub_def stub_inflate_def dinit_def
        Z_STREAM_END_def Z_OK_def Z_BUF_ERROR_def Z_DATA_ERROR_def)
  note T = ceiling_holds_for_inputs_and_decompress_output
  have 1: "length [1, 2, 3 :: byte] \<le> max_c (new_Compressor 6 100)"
    using T [where z = stub and cself = "new_Compressor 6 100", THEN conjunct1, THEN mp, OF c] .
  have 2: "length [0x1F, 0x8B, 1, 2, 3 :: byte] \<le> max_d (new_Decompressor 100) \<and>
      length [1, 2, 3 :: byte] \<le> max_d (new_Decompressor 100)"
    using T [where z = stub and dself = "new_Decompressor 100", THEN conjunct2, THEN conjunct1,
        THEN mp, OF d] .
  have 3: "length (doutput s') = size_uncompressed (dinit [] [0x1F, 0x8B, 1, 2, 3] ([] :: byte list)) + 2 * 5 \<and>
      length (doutput s') \<le> 100 \<and> size_uncompressed s' \<le> 100"
    using T [where z = stub, THEN conjunct2, THEN conjunct2, THEN conjunct1, THEN mp, OF i] .
  have 4: "out' = doutput (dinit [] [0x78, 0x9C, 1] ([] :: byte list)) \<or> length out' \<le> 100"
    using T [where z = stub, THEN conjunct2, THEN conjunct2, THEN conjunct2, THEN conjunct1,
        THEN mp, OF t] .
  have "(9 :: nat) < size_uncompressed (dinit [] [0x1F, 0x8B, 1, 2, 3 :: byte] ([] :: byte list)) + 2 * 5"
    by (simp add: dinit_def)
  from T [where z = stub, THEN conjunct2, THEN conjunct2, THEN conjunct2, THEN conjunct2,
        THEN mp, OF this]
  have 5: "decompress_iter stub 5 9 (dinit [] [0x1F, 0x8B, 1, 2, 3] []) =
     Inl (Runtime_error
            ''size of output string will use more memory then intended when decompressing'', [])"
    by (simp add: decompress_iter_def dinit_def)
  from 4 have r4: "length out' \<le> 100" by (auto simp add: dinit_def)
  from 3 have r3: "length (doutput s') = 10" "size_uncompressed s' \<le> 100"
    by (simp_all add: dinit_def)
  show ?thesis
    using c d 1 2 [THEN conjunct1] 2 [THEN conjunct2] r3 r4 5 i t
    by (intro conjI exI) assumption+
qed


section \<open>The compress loop\<close>

lemma compress_iter_pass:
  assumes "zcall (deflate z) ((deflate_s s)\<lparr>avail_out := increase sz mod 2 ^ 32\<rparr>) Z_FINISH =
             (ret, written, strm)"
  shows "compress_iter z sz s =
      \<lparr>coutput = store (grow (coutput s) (size_compressed s) (increase sz)) (size_compressed s) written,
       size_compressed = size_compressed s + (increase sz - avail_out strm), deflate_s = strm\<rparr>"
  using assms by (simp add: compress_iter_def)

lemma chead_exact:
  assumes "chead z sz s0 s ws"
    and "length (coutput s0) \<le> size_compressed s0 + increase sz"
  shows "length (coutput s) \<le> size_compressed s + increase sz"
  using assms(1)
proof induction
  case chead_init
  show ?case by (rule assms(2))
next
  case (chead_again s ws ret written strm)
  from zcall_window [OF chead_again.hyps(2)]
  have "length written \<le> increase sz mod 2 ^ 32" by simp
  moreover have "increase sz mod 2 ^ 32 \<le> increase sz" by simp
  ultimately have w: "length written \<le> increase sz" by (rule order_trans)
  note it = compress_iter_pass [OF chead_again.hyps(2)]
  have g: "length (grow (coutput s) (size_compressed s) (increase sz)) = size_compressed s + increase sz"
    using chead_again.IH by (rule grow_exact)
  have "length (coutput (compress_iter z sz s)) = size_compressed s + increase sz"
    using g w by (simp add: it length_store)
  moreover have "size_compressed (compress_iter z sz s) = size_compressed s + increase sz"
    using chead_again.hyps(3) by (simp add: it)
  ultimately show ?case by simp
qed

lemma compress_iter_bytes:
  assumes zc: "zcall (deflate z) ((deflate_s s)\<lparr>avail_out := increase sz\<rparr>) Z_FINISH =
             (ret, written, strm)"
    and inc: "increase sz < 2 ^ 32"
  shows "compress_iter z sz s =
      \<lparr>coutput = store (grow (coutput s) (size_compressed s) (increase sz)) (size_compressed s) written,
       size_compressed = size_compressed s + length written, deflate_s = strm\<rparr>"
    and "length written \<le> increase sz"
    and "avail_out strm = increase sz - length written"
    and "size_compressed s \<le> length (coutput s) \<Longrightarrow>
         take (size_compressed s + length written)
           (store (grow (coutput s) (size_compressed s) (increase sz)) (size_compressed s) written) =
         take (size_compressed s) (coutput s) @ written"
    and "size_compressed s + length written \<le>
         length (store (grow (coutput s) (size_compressed s) (increase sz)) (size_compressed s) written)"
proof -
  have wm: "increase sz mod 2 ^ 32 = increase sz" using inc by simp
  from zcall_window [OF zc]
  show w: "length written \<le> increase sz" and a: "avail_out strm = increase sz - length written"
    by simp_all
  from zc have "zcall (deflate z) ((deflate_s s)\<lparr>avail_out := increase sz mod 2 ^ 32\<rparr>) Z_FINISH =
             (ret, written, strm)"
    unfolding wm .
  from compress_iter_pass [OF this] w a
  show "compress_iter z sz s =
      \<lparr>coutput = store (grow (coutput s) (size_compressed s) (increase sz)) (size_compressed s) written,
       size_compressed = size_compressed s + length written, deflate_s = strm\<rparr>"
    by simp
  have fits: "size_compressed s + length written \<le>
      length (grow (coutput s) (size_compressed s) (increase sz))"
    using grow_ge [of "size_compressed s" "increase sz" "coutput s"] w by simp
  then show "size_compressed s + length written \<le>
         length (store (grow (coutput s) (size_compressed s) (increase sz)) (size_compressed s) written)"
    by (simp add: length_store)
  assume "size_compressed s \<le> length (coutput s)"
  then show "take (size_compressed s + length written)
           (store (grow (coutput s) (size_compressed s) (increase sz)) (size_compressed s) written) =
         take (size_compressed s) (coutput s) @ written"
    using take_store [OF fits] by (simp add: take_grow)
qed

lemma chead_bytes:
  assumes "chead z sz s0 s ws"
    and inc: "increase sz < 2 ^ 32"
    and "size_compressed s0 \<le> length (coutput s0)"
  shows "size_compressed s = size_compressed s0 + length ws \<and>
         size_compressed s \<le> length (coutput s) \<and>
         take (size_compressed s) (coutput s) = take (size_compressed s0) (coutput s0) @ ws"
  using assms(1)
proof induction
  case chead_init
  show ?case using assms(3) by simp
next
  case (chead_again s ws ret written strm)
  have wm: "increase sz mod 2 ^ 32 = increase sz" using inc by simp
  from chead_again.hyps(2)
  have zc: "zcall (deflate z) ((deflate_s s)\<lparr>avail_out := increase sz\<rparr>) Z_FINISH = (ret, written, strm)"
    unfolding wm .
  note ih1 = chead_again.IH [THEN conjunct1]
  note le = chead_again.IH [THEN conjunct2, THEN conjunct1]
  note ih3 = chead_again.IH [THEN conjunct2, THEN conjunct2]
  note b = compress_iter_bytes [OF zc inc]
  have "size_compressed (compress_iter z sz s) = size_compressed s0 + length (ws @ written)"
    using ih1 by (simp add: b(1))
  moreover have "size_compressed (compress_iter z sz s) \<le> length (coutput (compress_iter z sz s))"
    using b(5) by (simp add: b(1))
  moreover have "take (size_compressed (compress_iter z sz s)) (coutput (compress_iter z sz s)) =
      take (size_compressed s0) (coutput s0) @ ws @ written"
  proof -
    have "take (size_compressed (compress_iter z sz s)) (coutput (compress_iter z sz s)) =
        take (size_compressed s + length written)
          (store (grow (coutput s) (size_compressed s) (increase sz)) (size_compressed s) written)"
      by (simp add: b(1))
    also have "\<dots> = take (size_compressed s) (coutput s) @ written"
      by (rule b(4) [OF le])
    also have "\<dots> = (take (size_compressed s0) (coutput s0) @ ws) @ written"
      by (simp only: ih3)
    finally show ?thesis by simp
  qed
  ultimately show ?case by simp
qed

lemma Compressor_compress_bytes:
  assumes a: "Compressor_compress z DEBUG self out data = Some (Inr r)"
    and inc: "increase (length data) < 2 ^ 32"
  shows "\<exists>st s ws ret written strm.
           chead z (length data) (cinit out data st) s ws \<and>
           zcall (deflate z) ((deflate_s s)\<lparr>avail_out := increase (length data)\<rparr>) Z_FINISH =
             (ret, written, strm) \<and>
           avail_out strm \<noteq> 0 \<and>
           compress_loop z (length data) (cinit out data st) =
             Some (compress_iter z (length data) s) \<and>
           r = ws @ written \<and>
           length r = size_compressed (compress_iter z (length data) s)"
proof -
  let ?sz = "length data"
  obtain ret0 st where init:
    "deflateInit2 z (level_c self) Z_DEFLATED (15 + 16) 8 Z_DEFAULT_STRATEGY = (ret0, st)"
    by (cases "deflateInit2 z (level_c self) Z_DEFLATED (15 + 16) 8 Z_DEFAULT_STRATEGY")
  from a init obtain s' where
    loop: "compress_loop z ?sz (cinit out data st) = Some s'"
    and r: "r = resize (coutput s') (size_compressed s')"
    by (auto simp add: Compressor_compress_def split: if_splits option.splits)
  from compress_loop_last_pass [OF loop] obtain t ws where
    t: "chead z ?sz (cinit out data st) t ws" "compress_iter z ?sz t = s'"
      "avail_out (deflate_s s') \<noteq> 0"
    by blast
  obtain ret written strm where zc:
    "zcall (deflate z) ((deflate_s t)\<lparr>avail_out := increase ?sz\<rparr>) Z_FINISH = (ret, written, strm)"
    by (cases "zcall (deflate z) ((deflate_s t)\<lparr>avail_out := increase ?sz\<rparr>) Z_FINISH")
  note b = compress_iter_bytes [OF zc inc]
  have "size_compressed (cinit out data st) \<le> length (coutput (cinit out data st))"
    by (simp add: cinit_def)
  note cb = chead_bytes [OF t(1) inc this]
  have sc: "size_compressed t = length ws"
    using cb [THEN conjunct1] by (simp add: cinit_def)
  have le: "size_compressed t \<le> length (coutput t)"
    by (rule cb [THEN conjunct2, THEN conjunct1])
  have tk: "take (size_compressed t) (coutput t) = ws"
    using cb [THEN conjunct2, THEN conjunct2] by (simp add: cinit_def)
  have s': "s' = \<lparr>coutput = store (grow (coutput t) (size_compressed t) (increase ?sz))
                              (size_compressed t) written,
                  size_compressed = size_compressed t + length written, deflate_s = strm\<rparr>"
    using t(2) b(1) by simp
  have "resize (coutput s') (size_compressed s') = take (size_compressed s') (coutput s')"
    using b(5) by (intro resize_idem) (simp add: s')
  also have "\<dots> = ws @ written"
    using b(4) [OF le] tk by (simp add: s')
  finally have rw: "r = ws @ written" unfolding r .
  have ao: "avail_out strm \<noteq> 0" using t(3) by (simp add: s')
  have lp: "compress_loop z ?sz (cinit out data st) = Some (compress_iter z ?sz t)"
    using loop t(2) by simp
  have ln: "length r = size_compressed (compress_iter z ?sz t)"
    using rw sc by (simp add: t(2) s')
  from t(1) zc ao lp rw ln show ?thesis by blast
qed


text \<open>
  C5, as stated, fails: the loop grows the container only when it is shorter than
  \<open>size_compressed + increase\<close>. \<^verbatim>\<open>Compressor::compress\<close> called with a
  container that already holds \<open>5000\<close> bytes, on the empty input (\<open>increase = 1024\<close>),
  does not resize it in the first pass, and \<open>5000\<close> bytes, not \<open>1024\<close>, are
  available past the bytes produced.
\<close>

theorem compress_container_already_larger_counterexample:
  "deflateInit2 stub 6 Z_DEFLATED (15 + 16) 8 Z_DEFAULT_STRATEGY = (Z_OK, [0x1F, 0x8B]) \<and>
   increase (length ([] :: byte list)) = 1024 \<and>
   size_compressed (cinit (replicate 5000 0) [] [0x1F, 0x8B :: byte]) = 0 \<and>
   length (grow (coutput (cinit (replicate 5000 0) [] [0x1F, 0x8B :: byte]))
             (size_compressed (cinit (replicate 5000 0) [] [0x1F, 0x8B :: byte]))
             (increase (length ([] :: byte list)))) = 5000 \<and>
   Compressor_compress stub False (new_Compressor 6 2000000000) (replicate 5000 0) [] =
     Some (Inr [0x1F, 0x8B])"
proof -
  have "Compressor_compress stub False (new_Compressor 6 2000000000) (replicate 5000 0) [] =
     Some (Inr [0x1F, 0x8B])"
    by (rule stub_compress) (simp_all add: new_Compressor_def)
  then show ?thesis
    by (simp add: stub_def increase_def cinit_def grow_def)
qed

text \<open>
  C5, amended: only the growth of the container is stated differently. Each pass of the
  compress loop makes sure that at least \<open>increase = size / 2 + 1024\<close> bytes are
  available past the bytes already produced: a container that is long enough is left as
  it is, and one that is not longer than \<open>size_compressed + increase\<close> has exactly
  \<open>increase\<close> bytes available after the resize; this is so on every pass when the
  container passed in is no longer than \<open>increase\<close> (it is empty in
  \<^verbatim>\<open>gzip::compress\<close>). The rest is as claimed, in the range the code is written
  for, where \<open>increase\<close> fits in an \<^verbatim>\<open>unsigned int\<close> (it does whenever
  \<open>size\<close> does, which the \<^verbatim>\<open>DEBUG\<close> check enforces and the comment on the
  cast takes for granted): the pass offers the codec a window of exactly \<open>increase\<close>
  bytes at position \<open>size_compressed\<close>, stores what the codec wrote there, and adds
  exactly the number of bytes written to the total; the loop repeats exactly when the
  codec left \<open>avail_out = 0\<close>, that is, when it filled the window. A call that
  returns has left the loop after a pass with \<open>avail_out \<noteq> 0\<close>, and the container
  it returns holds exactly the bytes the codec wrote, pass after pass: its size is the
  total number of compressed bytes produced.
\<close>

theorem compress_loop_pass:
  "size_compressed s + increase sz \<le> length (grow (coutput s) (size_compressed s) (increase sz)) \<and>
   (size_compressed s + increase sz \<le> length (coutput s) \<longrightarrow>
      grow (coutput s) (size_compressed s) (increase sz) = coutput s) \<and>
   (length (coutput s) \<le> size_compressed s + increase sz \<longrightarrow>
      length (grow (coutput s) (size_compressed s) (increase sz)) = size_compressed s + increase sz) \<and>
   (chead z sz s0 s ws \<and> length (coutput s0) \<le> size_compressed s0 + increase sz \<longrightarrow>
      length (grow (coutput s) (size_compressed s) (increase sz)) = size_compressed s + increase sz) \<and>
   (sz \<le> UINT_MAX \<longrightarrow> increase sz \<le> UINT_MAX) \<and>
   (increase sz \<le> UINT_MAX \<and>
    zcall (deflate z) ((deflate_s s)\<lparr>avail_out := increase sz\<rparr>) Z_FINISH = (ret, written, strm) \<longrightarrow>
      compress_iter z sz s =
        \<lparr>coutput = store (grow (coutput s) (size_compressed s) (increase sz)) (size_compressed s) written,
         size_compressed = size_compressed s + length written,
         deflate_s = strm\<rparr> \<and>
      (avail_out strm = 0 \<longleftrightarrow> length written = increase sz) \<and>
      compress_loop z sz s =
        (if avail_out strm = 0 then compress_loop z sz (compress_iter z sz s)
         else Some (compress_iter z sz s))) \<and>
   (Compressor_compress z DEBUG self out data = Some (Inr r) \<and>
    (DEBUG \<or> increase (length data) \<le> UINT_MAX) \<longrightarrow>
      (\<exists>st s' ws' ret' written' strm'.
         chead z (length data) (cinit out data st) s' ws' \<and>
         zcall (deflate z) ((deflate_s s')\<lparr>avail_out := increase (length data)\<rparr>) Z_FINISH =
           (ret', written', strm') \<and>
         avail_out strm' \<noteq> 0 \<and>
         compress_loop z (length data) (cinit out data st) =
           Some (compress_iter z (length data) s') \<and>
         r = ws' @ written' \<and>
         length r = size_compressed (compress_iter z (length data) s')))"
proof (intro conjI impI)
  show "size_compressed s + increase sz \<le> length (grow (coutput s) (size_compressed s) (increase sz))"
    by (rule grow_ge)
next
  assume "size_compressed s + increase sz \<le> length (coutput s)"
  then show "grow (coutput s) (size_compressed s) (increase sz) = coutput s"
    by (simp add: grow_def)
next
  assume "length (coutput s) \<le> size_compressed s + increase sz"
  then show "length (grow (coutput s) (size_compressed s) (increase sz)) = size_compressed s + increase sz"
    by (rule grow_exact)
next
  assume "chead z sz s0 s ws \<and> length (coutput s0) \<le> size_compressed s0 + increase sz"
  then have "length (coutput s) \<le> size_compressed s + increase sz"
    by (blast intro: chead_exact)
  then show "length (grow (coutput s) (size_compressed s) (increase sz)) = size_compressed s + increase sz"
    by (rule grow_exact)
next
  assume "sz \<le> UINT_MAX"
  then show "increase sz \<le> UINT_MAX"
    by (simp add: increase_def UINT_MAX_def)
next
  assume h: "increase sz \<le> UINT_MAX \<and>
    zcall (deflate z) ((deflate_s s)\<lparr>avail_out := increase sz\<rparr>) Z_FINISH = (ret, written, strm)"
  then have inc: "increase sz < 2 ^ 32" by (simp add: UINT_MAX_def)
  note b = compress_iter_bytes [OF h [THEN conjunct2] inc]
  show it: "compress_iter z sz s =
        \<lparr>coutput = store (grow (coutput s) (size_compressed s) (increase sz)) (size_compressed s) written,
         size_compressed = size_compressed s + length written,
         deflate_s = strm\<rparr>"
    by (rule b(1))
  show "(avail_out strm = 0) = (length written = increase sz)"
    using b(2) b(3) by auto
  show "compress_loop z sz s =
        (if avail_out strm = 0 then compress_loop z sz (compress_iter z sz s)
         else Some (compress_iter z sz s))"
    by (subst compress_loop.simps) (simp add: it)
next
  assume h: "Compressor_compress z DEBUG self out data = Some (Inr r) \<and>
    (DEBUG \<or> increase (length data) \<le> UINT_MAX)"
  have "increase (length data) < 2 ^ 32"
  proof (cases DEBUG)
    case True
    with h have "\<not> UINT_MAX < length data"
      by (auto simp add: Compressor_compress_def split: if_splits)
    then show ?thesis by (simp add: increase_def UINT_MAX_def)
  next
    case False
    with h show ?thesis by (simp add: UINT_MAX_def)
  qed
  from Compressor_compress_bytes [OF h [THEN conjunct1] this]
  show "\<exists>st s' ws' ret' written' strm'.
         chead z (length data) (cinit out data st) s' ws' \<and>
         zcall (deflate z) ((deflate_s s')\<lparr>avail_out := increase (length data)\<rparr>) Z_FINISH =
           (ret', written', strm') \<and>
         avail_out strm' \<noteq> 0 \<and>
         compress_loop z (length data) (cinit out data st) =
           Some (compress_iter z (length data) s') \<and>
         r = ws' @ written' \<and>
         length r = size_compressed (compress_iter z (length data) s')" .
qed

text \<open>
  An instance with two passes: 2100 zero bytes through the stand-in codec, from an empty
  container. \<open>increase\<close> is 2074 and the stream has 2102 bytes. The first pass fills
  the window of 2074 bytes, so the loop repeats; the second pass finds a container of
  2074 bytes, grows it to 4148, receives the 28 bytes that are left and ends the loop;
  the call returns the 2102 bytes.
\<close>

theorem compress_loop_pass_witness:
  "increase 2100 = 2074 \<and>
   size_compressed (compress_iter stub 2100 (cinit [] (replicate 2100 0) [0x1F, 0x8B])) = 2074 \<and>
   compress_loop stub 2100 (cinit [] (replicate 2100 0) [0x1F, 0x8B]) =
     compress_loop stub 2100 (compress_iter stub 2100 (cinit [] (replicate 2100 0) [0x1F, 0x8B])) \<and>
   length (grow (coutput (compress_iter stub 2100 (cinit [] (replicate 2100 0) [0x1F, 0x8B])))
             2074 (increase 2100)) = 4148 \<and>
   size_compressed (compress_iter stub 2100
     (compress_iter stub 2100 (cinit [] (replicate 2100 0) [0x1F, 0x8B]))) = 2102 \<and>
   compress_loop stub 2100 (compress_iter stub 2100 (cinit [] (replicate 2100 0) [0x1F, 0x8B])) =
     Some (compress_iter stub 2100
       (compress_iter stub 2100 (cinit [] (replicate 2100 0) [0x1F, 0x8B]))) \<and>
   Compressor_compress stub False (new_Compressor 6 2000000000) [] (replicate 2100 0) =
     Some (Inr (0x1F # 0x8B # replicate 2100 0)) \<and>
   (\<exists>st s' ws' ret' written' strm'.
      chead stub (length (replicate 2100 (0 :: byte))) (cinit [] (replicate 2100 0) st) s' ws' \<and>
      zcall (deflate stub) ((deflate_s s')\<lparr>avail_out := increase (length (replicate 2100 (0 :: byte)))\<rparr>)
        Z_FINISH = (ret', written', strm') \<and>
      avail_out strm' \<noteq> 0 \<and>
      compress_loop stub (length (replicate 2100 (0 :: byte))) (cinit [] (replicate 2100 0) st) =
        Some (compress_iter stub (length (replicate 2100 (0 :: byte))) s') \<and>
      0x1F # 0x8B # replicate 2100 0 = ws' @ written' \<and>
      length (0x1F # 0x8B # replicate 2100 (0 :: byte)) =
        size_compressed (compress_iter stub (length (replicate 2100 (0 :: byte))) s'))"
proof -
  let ?data = "replicate 2100 0 :: byte list"
  let ?s = "cinit [] ?data [0x1F, 0x8B :: byte]"
  let ?w1 = "0x1F # 0x8B # replicate 2072 0 :: byte list"
  let ?w2 = "replicate 28 0 :: byte list"
  let ?strm1 = "(deflate_s ?s)\<lparr>next_in := [], avail_in := 0, avail_out := 0, msg := None,
                 state := ?w2\<rparr>"
  let ?strm2 = "(deflate_s ?s)\<lparr>next_in := [], avail_in := 0, avail_out := 2046, msg := None,
                 state := []\<rparr>"
  let ?s1 = "compress_iter stub 2100 ?s"
  have i: "increase 2100 = 2074" by (simp add: increase_def)
  have u: "increase 2100 \<le> UINT_MAX" by (simp add: increase_def UINT_MAX_def)
  have zc1: "zcall (deflate stub) ((deflate_s ?s)\<lparr>avail_out := increase 2100\<rparr>) Z_FINISH =
      (Z_OK, ?w1, ?strm1)"
    by (simp add: zcall_def stub_def stub_deflate_def cinit_def increase_def)
  note T1 = compress_loop_pass [where z = stub and s = ?s and sz = 2100 and s0 = ?s
      and ret = Z_OK and written = ?w1 and strm = ?strm1]
  note P1 = T1 [THEN conjunct2, THEN conjunct2, THEN conjunct2, THEN conjunct2, THEN conjunct2,
      THEN conjunct1, THEN mp, OF conjI, OF u zc1]
  have s1: "?s1 = \<lparr>coutput = store (grow (coutput ?s) (size_compressed ?s) (increase 2100))
                               (size_compressed ?s) ?w1,
                   size_compressed = size_compressed ?s + length ?w1, deflate_s = ?strm1\<rparr>"
    using P1 by blast
  have sc1: "size_compressed ?s1 = 2074"
    unfolding s1 by (simp add: cinit_def)
  have l1: "compress_loop stub 2100 ?s = compress_loop stub 2100 ?s1"
    using P1 [THEN conjunct2, THEN conjunct2] by simp
  have d1: "deflate_s ?s1 = ?strm1" unfolding s1 by simp
  have zc2: "zcall (deflate stub) ((deflate_s ?s1)\<lparr>avail_out := increase 2100\<rparr>) Z_FINISH =
      (Z_STREAM_END, ?w2, ?strm2)"
    unfolding d1 by (simp add: zcall_def stub_def stub_deflate_def cinit_def increase_def)
  have h1: "chead stub 2100 ?s ?s1 ([] @ ?w1)"
  proof (rule chead_again [OF chead_init])
    show "zcall (deflate stub) ((deflate_s ?s)\<lparr>avail_out := increase 2100 mod 2 ^ 32\<rparr>) Z_FINISH =
      (Z_OK, ?w1, ?strm1)"
      by (simp add: zcall_def stub_def stub_deflate_def cinit_def increase_def)
    show "avail_out ?strm1 = 0" by simp
  qed
  have h0: "length (coutput ?s) \<le> size_compressed ?s + increase 2100"
    by (simp add: cinit_def)
  note T2 = compress_loop_pass [where z = stub and s = ?s1 and sz = 2100 and s0 = ?s
      and ws = "[] @ ?w1" and ret = Z_STREAM_END and written = ?w2 and strm = ?strm2]
  have g2: "length (grow (coutput ?s1) (size_compressed ?s1) (increase 2100)) =
      size_compressed ?s1 + increase 2100"
    using T2 [THEN conjunct2, THEN conjunct2, THEN conjunct2, THEN conjunct1, THEN mp,
      OF conjI, OF h1 h0] .
  note P2 = T2 [THEN conjunct2, THEN conjunct2, THEN conjunct2, THEN conjunct2, THEN conjunct2,
      THEN conjunct1, THEN mp, OF conjI, OF u zc2]
  have sc2: "size_compressed (compress_iter stub 2100 ?s1) = size_compressed ?s1 + length ?w2"
    using P2 [THEN conjunct1] by simp
  have l2: "compress_loop stub 2100 ?s1 = Some (compress_iter stub 2100 ?s1)"
    using P2 [THEN conjunct2, THEN conjunct2] by simp
  have c: "Compressor_compress stub False (new_Compressor 6 2000000000) [] ?data =
      Some (Inr (0x1F # 0x8B # ?data))"
    by (rule stub_compress) (simp_all add: new_Compressor_def)
  have u': "False \<or> increase (length ?data) \<le> UINT_MAX"
    by (simp add: increase_def UINT_MAX_def)
  note E = compress_loop_pass [where z = stub and DEBUG = False
      and self = "new_Compressor 6 2000000000" and out = "[]" and data = ?data
      and r = "0x1F # 0x8B # ?data",
      THEN conjunct2, THEN conjunct2, THEN conjunct2, THEN conjunct2, THEN conjunct2,
      THEN conjunct2, THEN mp, OF conjI, OF c u']
  have g2': "length (grow (coutput ?s1) 2074 (increase 2100)) = 4148"
    using g2 unfolding sc1 i by simp
  have sc2': "size_compressed (compress_iter stub 2100 ?s1) = 2102"
    using sc2 unfolding sc1 by simp
  from i sc1 l1 g2' sc2' l2 c E show ?thesis by blast
qed

text \<open>
  X5. Outside that range the cast does change the value, and the loop is no longer the
  one described: with \<open>size = 8589934592\<close>, \<open>increase\<close> is \<open>4294968320\<close> and the
  window offered is \<open>1024\<close> bytes; the stand-in codec writes its two pending bytes,
  and the total becomes \<open>4294967298\<close>.
\<close>

theorem compress_iter_beyond_unsigned_int:
  "increase 8589934592 = 4294968320 \<and>
   \<not> increase 8589934592 \<le> UINT_MAX \<and>
   increase 8589934592 mod 2 ^ 32 = 1024 \<and>
   zcall (deflate stub)
     ((deflate_s (cinit [] [] [0x1F, 0x8B]))\<lparr>avail_out := increase 8589934592 mod 2 ^ 32\<rparr>) Z_FINISH =
     (Z_STREAM_END, [0x1F, 0x8B],
      (deflate_s (cinit [] [] [0x1F, 0x8B]))\<lparr>next_in := [], avail_in := 0, avail_out := 1022,
         msg := None, state := []\<rparr>) \<and>
   size_compressed (compress_iter stub 8589934592 (cinit [] [] [0x1F, 0x8B])) = 4294967298"
  by (simp add: increase_def UINT_MAX_def zcall_def stub_def stub_deflate_def cinit_def
      compress_iter_def)


section \<open>Decompressing the empty buffer\<close>

lemma decompress_loop_zero_window:
  assumes loop: "decompress_loop z sz mx s = Some r"
  shows "\<not> ((\<forall>st. fst (inflate z st [] 0 Z_FINISH) \<in> {Z_STREAM_END, Z_OK, Z_BUF_ERROR}) \<and>
           sz = 0 \<and> size_uncompressed s = 0 \<and> next_in (inflate_s s) = [])"
proof (rule decompress_loop.raw_induct [where P = "\<lambda>z sz mx s r.
    \<not> ((\<forall>st. fst (inflate z st [] 0 Z_FINISH) \<in> {Z_STREAM_END, Z_OK, Z_BUF_ERROR}) \<and>
           sz = 0 \<and> size_uncompressed s = 0 \<and> next_in (inflate_s s) = [])", OF _ loop])
  fix loop :: "'a zlib \<Rightarrow> nat \<Rightarrow> nat \<Rightarrow> 'a dloop \<Rightarrow> (error \<times> byte list + 'a dloop) option"
  fix z sz mx s r
  assume IH: "\<And>z sz mx s r. loop z sz mx s = Some r \<Longrightarrow>
      \<not> ((\<forall>st. fst (inflate z st [] 0 Z_FINISH) \<in> {Z_STREAM_END, Z_OK, Z_BUF_ERROR}) \<and>
           sz = 0 \<and> size_uncompressed s = 0 \<and> next_in (inflate_s s) = [])"
    and body: "(case decompress_iter z sz mx s of Inl e \<Rightarrow> Some (Inl e)
      | Inr s' \<Rightarrow> if avail_out (inflate_s s') = 0 then loop z sz mx s' else Some (Inr s')) = Some r"
  show "\<not> ((\<forall>st. fst (inflate z st [] 0 Z_FINISH) \<in> {Z_STREAM_END, Z_OK, Z_BUF_ERROR}) \<and>
           sz = 0 \<and> size_uncompressed s = 0 \<and> next_in (inflate_s s) = [])"
  proof
    assume c: "(\<forall>st. fst (inflate z st [] 0 Z_FINISH) \<in> {Z_STREAM_END, Z_OK, Z_BUF_ERROR}) \<and>
           sz = 0 \<and> size_uncompressed s = 0 \<and> next_in (inflate_s s) = []"
    obtain ret consumed produced m st where
      f: "inflate z (state (inflate_s s)) [] 0 Z_FINISH = (ret, consumed, produced, m, st)"
      by (cases "inflate z (state (inflate_s s)) [] 0 Z_FINISH")
    from c f have ret: "ret \<in> {Z_STREAM_END, Z_OK, Z_BUF_ERROR}"
      by (metis fst_conv)
    let ?s' = "\<lparr>doutput = store (resize (doutput s) 0) 0 [],
                size_uncompressed = 0,
                inflate_s = (inflate_s s)\<lparr>next_in := [], avail_in := avail_in (inflate_s s) - min consumed (avail_in (inflate_s s)),
                  avail_out := 0, msg := m, state := st\<rparr>\<rparr>"
    have it: "decompress_iter z sz mx s = Inr ?s'"
      using c f ret by (simp add: decompress_iter_def zcall_def)
    from body have "loop z sz mx ?s' = Some r"
      by (simp add: it)
    from IH [OF this]
    have "\<not> ((\<forall>st. fst (inflate z st [] 0 Z_FINISH) \<in> {Z_STREAM_END, Z_OK, Z_BUF_ERROR}) \<and>
           sz = 0 \<and> size_uncompressed ?s' = 0 \<and> next_in (inflate_s ?s') = [])" .
    moreover have "size_uncompressed ?s' = 0 \<and> next_in (inflate_s ?s') = []" by simp
    ultimately show False using c by blast
  qed
qed


text \<open>
  C4 at the input on which the code does not terminate. For the empty buffer the
  decompress loop offers the codec a window of \<open>2 * 0 = 0\<close> bytes. Whenever
  \<^verbatim>\<open>inflateInit2\<close> succeeds and \<^verbatim>\<open>inflate\<close>, given no input and no
  room, answers with one of the three codes the loop accepts (zlib answers
  \<^verbatim>\<open>Z_BUF_ERROR\<close>), \<open>avail_out\<close> is \<open>0\<close> after every pass and the ceiling
  is never reached: \<^verbatim>\<open>Decompressor::decompress\<close> and \<^verbatim>\<open>gzip::decompress\<close>
  neither return nor throw. This is the container type \<^verbatim>\<open>std::string\<close> (the
  pointer and the string overload); with an empty \<^verbatim>\<open>std::vector\<close> the
  expression \<^verbatim>\<open>&output[0]\<close> is itself undefined.
\<close>

theorem decompress_empty_input_never_returns:
  assumes "fst (inflateInit2 z (15 + 32)) = Z_OK"
    and "\<And>st. fst (inflate z st [] 0 Z_FINISH) \<in> {Z_STREAM_END, Z_OK, Z_BUF_ERROR}"
  shows "Decompressor_decompress z DEBUG self out [] = None \<and>
         gzip_decompress z DEBUG [] max_bytes = None \<and>
         gzip_decompress_string z DEBUG [] max_bytes = None"
proof -
  obtain st where init: "inflateInit2 z (15 + 32) = (Z_OK, st)"
    using assms(1) by (cases "inflateInit2 z (15 + 32)") simp
  have loop: "decompress_loop z 0 mx (dinit out' [] st) = None" for mx out'
  proof (cases "decompress_loop z 0 mx (dinit out' [] st)")
    case None
    then show ?thesis .
  next
    case (Some r)
    have "size_uncompressed (dinit out' [] st) = 0 \<and> next_in (inflate_s (dinit out' [] st)) = []"
      by (simp add: dinit_def)
    with decompress_loop_zero_window [OF Some] assms(2) show ?thesis
      by blast
  qed
  have "Decompressor_decompress z DEBUG self' out' [] = None" for self' out'
    using init loop by (simp add: Decompressor_decompress_def)
  then show ?thesis
    by (simp add: gzip_decompress_def gzip_decompress_string_def)
qed


theorem decompress_empty_input_never_returns_witness:
  "fst (inflateInit2 stub (15 + 32)) = Z_OK \<and>
   gzip_decompress stub False [] 2000000000 = None \<and>
   gzip_decompress_string stub False [] 2000000000 = None \<and>
   Decompressor_decompress stub False (new_Decompressor 2000000000) [] [] = None"
  using decompress_empty_input_never_returns [of stub False "new_Decompressor 2000000000" "[]" 2000000000]
  by (simp add: stub_def stub_inflate_def)


text \<open>
  X6. The vector overload on the empty buffer: once \<^verbatim>\<open>inflateInit2\<close> has
  succeeded, the first pass of the loop resizes the vector to \<open>0\<close> elements and
  takes \<^verbatim>\<open>&output[0]\<close>, the element of an empty vector, and the run ends there,
  whatever the ceiling and with or without \<^verbatim>\<open>DEBUG\<close>.
\<close>

theorem decompress_empty_vector_takes_element:
  assumes "fst (inflateInit2 z (15 + 32)) = Z_OK"
  shows "gzip_decompress_vector z DEBUG [] max_bytes = Some (Inl Empty_vector_element)"
proof -
  obtain st where init: "inflateInit2 z (15 + 32) = (Z_OK, st)"
    using assms by (cases "inflateInit2 z (15 + 32)") simp
  have "decompress_iter_vector z 0 mx (dinit [] [] st) = Inl (Empty_vector_element, [])" for mx
    by (simp add: decompress_iter_vector_def dinit_def)
  then have "decompress_loop_vector z 0 mx (dinit [] [] st) = Some (Inl (Empty_vector_element, []))"
    for mx by (subst decompress_loop_vector.simps) simp
  then show ?thesis
    using init
    by (simp add: gzip_decompress_vector_def Decompressor_decompress_vector_def UINT_MAX_def)
qed

theorem decompress_empty_vector_takes_element_witness:
  "gzip_decompress_vector stub False [] 2000000000 = Some (Inl Empty_vector_element) \<and>
   gzip_decompress_vector stub True [] 0 = Some (Inl Empty_vector_element)"
  using decompress_empty_vector_takes_element [of stub False 2000000000]
    decompress_empty_vector_takes_element [of stub True 0]
  by (simp add: stub_def)


section \<open>A codec error without a message\<close>

text \<open>
  C6 at an input on which the code does not throw the codec's message. If the first
  call of \<^verbatim>\<open>inflate\<close> returns a code other than \<^verbatim>\<open>Z_STREAM_END\<close>,
  \<^verbatim>\<open>Z_OK\<close> and \<^verbatim>\<open>Z_BUF_ERROR\<close> and leaves \<open>msg\<close> null, as zlib does
  for \<^verbatim>\<open>Z_NEED_DICT\<close>, \<^verbatim>\<open>gzip::decompress\<close> constructs a
  \<^verbatim>\<open>std::string\<close> from the null pointer instead of throwing a
  \<^verbatim>\<open>std::runtime_error\<close> with a message of the codec.
\<close>

theorem decompress_bad_return_without_message:
  assumes "inflateInit2 z (15 + 32) = (Z_OK, st)"
    and "data \<noteq> []" and "2 * length data < 2 ^ 32" and "2 * length data \<le> max_bytes"
    and "inflate z st data (2 * length data) Z_FINISH = (ret, consumed, produced, None, st')"
    and "ret \<noteq> Z_STREAM_END" "ret \<noteq> Z_OK" "ret \<noteq> Z_BUF_ERROR"
  shows "gzip_decompress z DEBUG data max_bytes = Some (Inl Null_msg_string) \<and>
         gzip_decompress_string z DEBUG data max_bytes = Some (Inl Null_msg_string) \<and>
         gzip_decompress_vector z DEBUG data max_bytes = Some (Inl Null_msg_string)"
proof -
  have n: "length data mod 2 ^ 32 = length data" "(2 * length data) mod 2 ^ 32 = 2 * length data"
    using assms(3) by simp_all
  have "\<exists>out'. decompress_iter z (length data) max_bytes (dinit [] data st) = Inl (Null_msg_string, out')"
    using assms(4-8) n unfolding decompress_iter_def zcall_def dinit_def by simp
  then obtain out' where
    it: "decompress_iter z (length data) max_bytes (dinit [] data st) = Inl (Null_msg_string, out')"
    by blast
  have "decompress_loop z (length data) max_bytes (dinit [] data st) = Some (Inl (Null_msg_string, out'))"
    by (subst decompress_loop.simps) (simp add: it)
  moreover have "\<not> UINT_MAX < length data * 2" using assms(3) by (simp add: UINT_MAX_def)
  ultimately have "gzip_decompress z DEBUG data max_bytes = Some (Inl Null_msg_string)"
    using assms(1,4)
    by (simp add: gzip_decompress_def Decompressor_decompress_def new_Decompressor_def mult.commute)
  then show ?thesis
    using assms(2) by (simp add: gzip_decompress_string_def gzip_decompress_vector_eq)
qed


theorem decompress_bad_return_without_message_witness:
  "inflate stub [] [0x78, 0xBB, 0, 0, 0, 0] 12 Z_FINISH = (Z_NEED_DICT, 6, [], None, []) \<and>
   gzip_decompress stub False [0x78, 0xBB, 0, 0, 0, 0] 2000000000 = Some (Inl Null_msg_string)"
proof -
  have 1: "inflateInit2 stub (15 + 32) = (Z_OK, [])" by (simp add: stub_def)
  have 2: "inflate stub [] [0x78, 0xBB, 0, 0, 0, 0] (2 * length [0x78, 0xBB, 0, 0, 0, 0 :: byte]) Z_FINISH =
      (Z_NEED_DICT, 6, [], None, [])"
    by (simp add: stub_def stub_inflate_def)
  from decompress_bad_return_without_message [OF 1 _ _ _ 2, of 2000000000 False] 2
  show ?thesis
    by (simp add: Z_NEED_DICT_def Z_STREAM_END_def Z_OK_def Z_BUF_ERROR_def)
qed

section \<open>Results and the memory a run is handed\<close>

text \<open>
  That two runs on equal inputs give equal results, and that a run leaves the configured
  level and ceiling as they were, is not a theorem here: \<^verbatim>\<open>compress\<close> and
  \<^verbatim>\<open>decompress\<close> are \<^verbatim>\<open>const\<close> member functions and
  \<^verbatim>\<open>is_compressed\<close> is a free function, so they are embedded as functions of the
  codec, the build flag, the object and the input bytes that return no object, and both
  statements hold of every such function. What can be asked of these definitions is
  whether a result depends on memory that is handed to a run without being an input.
\<close>

lemma csame_sym: "csame s t \<Longrightarrow> csame t s"
  by (auto simp add: csame_def)

lemma dsame_sym: "dsame s t \<Longrightarrow> dsame t s"
  by (auto simp add: dsame_def)

lemma compress_iter_csame:
  assumes "csame s t" "increase sz < 2 ^ 32"
  shows "csame (compress_iter z sz s) (compress_iter z sz t)"
proof -
  let ?w = "increase sz"
  obtain ret written strm where zc:
    "zcall (deflate z) ((deflate_s s)\<lparr>avail_out := ?w mod 2 ^ 32\<rparr>) Z_FINISH = (ret, written, strm)"
    by (cases "zcall (deflate z) ((deflate_s s)\<lparr>avail_out := ?w mod 2 ^ 32\<rparr>) Z_FINISH")
  from zcall_window [OF zc] assms(2)
  have w: "length written \<le> ?w" and a: "avail_out strm = ?w - length written" by simp_all
  have zc': "zcall (deflate z) ((deflate_s t)\<lparr>avail_out := ?w mod 2 ^ 32\<rparr>) Z_FINISH = (ret, written, strm)"
    using zc assms(1) by (simp add: csame_def)
  let ?sc = "size_compressed s"
  have sct: "size_compressed t = ?sc" using assms(1) by (simp add: csame_def)
  have its: "compress_iter z sz s = \<lparr>coutput = store (grow (coutput s) ?sc ?w) ?sc written,
      size_compressed = ?sc + length written, deflate_s = strm\<rparr>"
    using zc w a by (simp add: compress_iter_def)
  have itt: "compress_iter z sz t = \<lparr>coutput = store (grow (coutput t) ?sc ?w) ?sc written,
      size_compressed = ?sc + length written, deflate_s = strm\<rparr>"
    using zc' w a by (simp add: compress_iter_def sct)
  have fs: "?sc + length written \<le> length (grow (coutput s) ?sc ?w)"
    using grow_ge [of ?sc ?w "coutput s"] w by simp
  have ft: "?sc + length written \<le> length (grow (coutput t) ?sc ?w)"
    using grow_ge [of ?sc ?w "coutput t"] w by simp
  have ls: "?sc \<le> length (coutput s)" and lt: "?sc \<le> length (coutput t)"
    and tk: "take ?sc (coutput s) = take ?sc (coutput t)"
    using assms(1) by (auto simp add: csame_def)
  have "take (?sc + length written) (store (grow (coutput s) ?sc ?w) ?sc written) =
      take (?sc + length written) (store (grow (coutput t) ?sc ?w) ?sc written)"
    unfolding take_store [OF fs] take_store [OF ft] take_grow [OF ls] take_grow [OF lt] tk ..
  then show ?thesis
    unfolding its itt csame_def using fs ft by (simp add: length_store)
qed

lemma compress_loop_csame_Some:
  assumes loop: "compress_loop z sz s = Some r" and inc: "increase sz < 2 ^ 32"
  shows "\<forall>t. csame s t \<longrightarrow> (\<exists>r'. compress_loop z sz t = Some r' \<and> csame r r')"
proof (rule compress_loop.raw_induct [where P = "\<lambda>z' sz' s r.
    z' = z \<and> sz' = sz \<longrightarrow> (\<forall>t. csame s t \<longrightarrow> (\<exists>r'. compress_loop z sz t = Some r' \<and> csame r r'))",
    OF _ loop, THEN mp])
  show "z = z \<and> sz = sz" by simp
next
  fix loop :: "'a zlib \<Rightarrow> nat \<Rightarrow> 'a cloop \<Rightarrow> 'a cloop option"
  fix z' sz' s r
  assume IH: "\<And>z' sz' s r. loop z' sz' s = Some r \<Longrightarrow>
      z' = z \<and> sz' = sz \<longrightarrow> (\<forall>t. csame s t \<longrightarrow> (\<exists>r'. compress_loop z sz t = Some r' \<and> csame r r'))"
    and body: "(if avail_out (deflate_s (compress_iter z' sz' s)) = 0
      then loop z' sz' (compress_iter z' sz' s) else Some (compress_iter z' sz' s)) = Some r"
  show "z' = z \<and> sz' = sz \<longrightarrow> (\<forall>t. csame s t \<longrightarrow> (\<exists>r'. compress_loop z sz t = Some r' \<and> csame r r'))"
  proof (intro impI allI)
    fix t
    assume eq: "z' = z \<and> sz' = sz" and st: "csame s t"
    from compress_iter_csame [OF st inc]
    have c1: "csame (compress_iter z sz s) (compress_iter z sz t)" .
    then have av: "avail_out (deflate_s (compress_iter z sz t)) = avail_out (deflate_s (compress_iter z sz s))"
      by (simp add: csame_def)
    show "\<exists>r'. compress_loop z sz t = Some r' \<and> csame r r'"
    proof (cases "avail_out (deflate_s (compress_iter z sz s)) = 0")
      case True
      with body eq have "loop z sz (compress_iter z sz s) = Some r" by simp
      from IH [OF this] c1 obtain r' where
        "compress_loop z sz (compress_iter z sz t) = Some r'" "csame r r'" by blast
      moreover have "compress_loop z sz t = compress_loop z sz (compress_iter z sz t)"
        using True av by (subst compress_loop.simps) simp
      ultimately show ?thesis by simp
    next
      case False
      with body eq have "r = compress_iter z sz s" by simp
      moreover have "compress_loop z sz t = Some (compress_iter z sz t)"
        using False av by (subst compress_loop.simps) simp
      ultimately show ?thesis using c1 by simp
    qed
  qed
qed

lemma compress_loop_csame:
  assumes "csame s t" "increase sz < 2 ^ 32"
  shows "rel_option csame (compress_loop z sz s) (compress_loop z sz t)"
proof (cases "compress_loop z sz s")
  case None
  show ?thesis
  proof (cases "compress_loop z sz t")
    case None
    with \<open>compress_loop z sz s = None\<close> show ?thesis by simp
  next
    case (Some r')
    from compress_loop_csame_Some [OF Some assms(2)] csame_sym [OF assms(1)] None
    show ?thesis by auto
  qed
next
  case (Some r)
  from compress_loop_csame_Some [OF Some assms(2)] assms(1)
  obtain r' where "compress_loop z sz t = Some r'" "csame r r'" by blast
  with Some show ?thesis by simp
qed

lemma decompress_iter_dsame:
  assumes "dsame s t" "2 * sz < 2 ^ 32"
  shows "rel_sum (\<lambda>a b. fst a = fst b) dsame (decompress_iter z sz mx s) (decompress_iter z sz mx t)"
proof -
  let ?w = "2 * sz"
  let ?su = "size_uncompressed s"
  have wm: "?w mod 2 ^ 32 = ?w" using assms(2) by simp
  obtain ret written strm where zc:
    "zcall (inflate z) ((inflate_s s)\<lparr>avail_out := ?w\<rparr>) Z_FINISH = (ret, written, strm)"
    by (cases "zcall (inflate z) ((inflate_s s)\<lparr>avail_out := ?w\<rparr>) Z_FINISH")
  from zcall_window [OF zc]
  have w: "length written \<le> ?w" and a: "avail_out strm = ?w - length written" by simp_all
  have sut: "size_uncompressed t = ?su" and strm: "inflate_s t = inflate_s s"
    and ls: "?su \<le> length (doutput s)" and lt: "?su \<le> length (doutput t)"
    and tk: "take ?su (doutput s) = take ?su (doutput t)"
    using assms(1) by (auto simp add: dsame_def)
  let ?gs = "resize (doutput s) (?su + ?w)"
  let ?gt = "resize (doutput t) (?su + ?w)"
  have fs: "?su + length written \<le> length ?gs" and ft: "?su + length written \<le> length ?gt"
    using w by simp_all
  have tks: "take ?su ?gs = take ?su (doutput s)" by (rule take_resize [OF ls]) simp
  have tkt: "take ?su ?gt = take ?su (doutput t)" by (rule take_resize [OF lt]) simp
  have eq: "take (?su + length written) (store ?gs ?su written) =
      take (?su + length written) (store ?gt ?su written)"
    unfolding take_store [OF fs] take_store [OF ft] tks tkt tk ..
  have same: "dsame \<lparr>doutput = store ?gs ?su written, size_uncompressed = ?su + (?w - avail_out strm),
                     inflate_s = strm\<rparr>
                    \<lparr>doutput = store ?gt ?su written, size_uncompressed = ?su + (?w - avail_out strm),
                     inflate_s = strm\<rparr>"
    unfolding dsame_def using eq fs ft w a by (simp add: length_store)
  show ?thesis
    unfolding decompress_iter_def sut strm wm zc using same by simp
qed

lemma decompress_loop_dsame_Some:
  assumes loop: "decompress_loop z sz mx s = Some r" and fit: "2 * sz < 2 ^ 32"
  shows "\<forall>t. dsame s t \<longrightarrow>
    (\<exists>r'. decompress_loop z sz mx t = Some r' \<and> rel_sum (\<lambda>a b. fst a = fst b) dsame r r')"
proof (rule decompress_loop.raw_induct [where P = "\<lambda>z' sz' mx' s r.
    z' = z \<and> sz' = sz \<and> mx' = mx \<longrightarrow> (\<forall>t. dsame s t \<longrightarrow>
      (\<exists>r'. decompress_loop z sz mx t = Some r' \<and> rel_sum (\<lambda>a b. fst a = fst b) dsame r r'))",
    OF _ loop, THEN mp])
  show "z = z \<and> sz = sz \<and> mx = mx" by simp
next
  fix loop :: "'a zlib \<Rightarrow> nat \<Rightarrow> nat \<Rightarrow> 'a dloop \<Rightarrow> (error \<times> byte list + 'a dloop) option"
  fix z' sz' mx' s r
  assume IH: "\<And>z' sz' mx' s r. loop z' sz' mx' s = Some r \<Longrightarrow>
      z' = z \<and> sz' = sz \<and> mx' = mx \<longrightarrow> (\<forall>t. dsame s t \<longrightarrow>
        (\<exists>r'. decompress_loop z sz mx t = Some r' \<and> rel_sum (\<lambda>a b. fst a = fst b) dsame r r'))"
    and body: "(case decompress_iter z' sz' mx' s of Inl e \<Rightarrow> Some (Inl e)
      | Inr s' \<Rightarrow> if avail_out (inflate_s s') = 0 then loop z' sz' mx' s' else Some (Inr s')) = Some r"
  show "z' = z \<and> sz' = sz \<and> mx' = mx \<longrightarrow> (\<forall>t. dsame s t \<longrightarrow>
        (\<exists>r'. decompress_loop z sz mx t = Some r' \<and> rel_sum (\<lambda>a b. fst a = fst b) dsame r r'))"
  proof (intro impI allI)
    fix t
    assume eq: "z' = z \<and> sz' = sz \<and> mx' = mx" and st: "dsame s t"
    note rel = decompress_iter_dsame [OF st fit, of z mx]
    show "\<exists>r'. decompress_loop z sz mx t = Some r' \<and> rel_sum (\<lambda>a b. fst a = fst b) dsame r r'"
    proof (cases "decompress_iter z sz mx s")
      case (Inl e)
      with rel obtain e' where t: "decompress_iter z sz mx t = Inl e'" "fst e = fst e'"
        by (cases "decompress_iter z sz mx t") auto
      from body eq Inl have "r = Inl e" by simp
      moreover have "decompress_loop z sz mx t = Some (Inl e')"
        by (subst decompress_loop.simps) (simp add: t)
      ultimately show ?thesis using t(2) by simp
    next
      case (Inr s')
      with rel obtain t' where t: "decompress_iter z sz mx t = Inr t'" "dsame s' t'"
        by (cases "decompress_iter z sz mx t") auto
      then have av: "avail_out (inflate_s t') = avail_out (inflate_s s')"
        by (simp add: dsame_def)
      show ?thesis
      proof (cases "avail_out (inflate_s s') = 0")
        case True
        with body eq Inr have "loop z sz mx s' = Some r" by simp
        from IH [OF this] t(2) obtain r' where
          "decompress_loop z sz mx t' = Some r'" "rel_sum (\<lambda>a b. fst a = fst b) dsame r r'" by blast
        moreover have "decompress_loop z sz mx t = decompress_loop z sz mx t'"
          using True av by (subst decompress_loop.simps) (simp add: t)
        ultimately show ?thesis by simp
      next
        case False
        with body eq Inr have "r = Inr s'" by simp
        moreover have "decompress_loop z sz mx t = Some (Inr t')"
          using False av by (subst decompress_loop.simps) (simp add: t)
        ultimately show ?thesis using t(2) by simp
      qed
    qed
  qed
qed

lemma decompress_loop_dsame:
  assumes "dsame s t" "2 * sz < 2 ^ 32"
  shows "rel_option (rel_sum (\<lambda>a b. fst a = fst b) dsame)
           (decompress_loop z sz mx s) (decompress_loop z sz mx t)"
proof (cases "decompress_loop z sz mx s")
  case None
  show ?thesis
  proof (cases "decompress_loop z sz mx t")
    case None
    with \<open>decompress_loop z sz mx s = None\<close> show ?thesis by simp
  next
    case (Some r')
    from decompress_loop_dsame_Some [OF Some assms(2)] dsame_sym [OF assms(1)] None
    show ?thesis by auto
  qed
next
  case (Some r)
  from decompress_loop_dsame_Some [OF Some assms(2)] assms(1)
  obtain r' where "decompress_loop z sz mx t = Some r'"
    "rel_sum (\<lambda>a b. fst a = fst b) dsame r r'" by blast
  with Some show ?thesis by simp
qed

lemma map_result_Inr:
  "map_option (map_sum f id) x = Some (Inr v) \<longleftrightarrow> x = Some (Inr v)"
proof (cases x)
  case None
  then show ?thesis by simp
next
  case (Some r)
  then show ?thesis by (cases r) simp_all
qed

lemma Compressor_compress_container:
  assumes "increase (length data) < 2 ^ 32"
  shows "map_option (map_sum fst id) (Compressor_compress z DEBUG self out data) =
         map_option (map_sum fst id) (Compressor_compress z DEBUG self out' data)"
proof -
  obtain ret st where init:
    "deflateInit2 z (level_c self) Z_DEFLATED (15 + 16) 8 Z_DEFAULT_STRATEGY = (ret, st)"
    by (cases "deflateInit2 z (level_c self) Z_DEFLATED (15 + 16) 8 Z_DEFAULT_STRATEGY")
  have "csame (cinit out data st) (cinit out' data st)"
    by (simp add: csame_def cinit_def)
  from compress_loop_csame [OF this assms, of z]
  have "map_option (\<lambda>s. resize (coutput s) (size_compressed s))
          (compress_loop z (length data) (cinit out data st)) =
        map_option (\<lambda>s. resize (coutput s) (size_compressed s))
          (compress_loop z (length data) (cinit out' data st))"
    by (cases "compress_loop z (length data) (cinit out data st)";
        cases "compress_loop z (length data) (cinit out' data st)")
       (auto simp add: csame_def resize_idem)
  then show ?thesis
    using init by (auto simp add: Compressor_compress_def split: option.splits)
qed

lemma Decompressor_decompress_container:
  assumes "2 * length data < 2 ^ 32"
  shows "map_option (map_sum fst id) (Decompressor_decompress z DEBUG self out data) =
         map_option (map_sum fst id) (Decompressor_decompress z DEBUG self out' data)"
proof -
  obtain ret st where init: "inflateInit2 z (15 + 32) = (ret, st)"
    by (cases "inflateInit2 z (15 + 32)")
  have "dsame (dinit out data st) (dinit out' data st)"
    by (simp add: dsame_def dinit_def)
  from decompress_loop_dsame [OF this assms, of z "max_d self"]
  have "map_option (map_sum fst (\<lambda>s. resize (doutput s) (size_uncompressed s)))
          (decompress_loop z (length data) (max_d self) (dinit out data st)) =
        map_option (map_sum fst (\<lambda>s. resize (doutput s) (size_uncompressed s)))
          (decompress_loop z (length data) (max_d self) (dinit out' data st))"
    by (cases "decompress_loop z (length data) (max_d self) (dinit out data st)";
        cases "decompress_loop z (length data) (max_d self) (dinit out' data st)")
       (auto simp add: dsame_def resize_idem elim!: rel_sum.cases)
  then show ?thesis
    using init by (auto simp add: Decompressor_decompress_def split: option.splits sum.splits)
qed


text \<open>
  X4. A run is handed memory that is not among its inputs: the previous contents of the
  by-reference output container, and for \<^verbatim>\<open>is_compressed(data, size)\<close> the
  bytes behind the buffer. None of it reaches the result. Two runs of
  \<^verbatim>\<open>Compressor::compress\<close> on the same input, level and ceiling return the same
  bytes, or throw the same exception, or both do not terminate, whatever the containers
  held before (sizes for which \<open>increase\<close> fits in an \<^verbatim>\<open>unsigned int\<close>),
  and \<^verbatim>\<open>gzip::compress\<close> is that result; the same holds for
  \<^verbatim>\<open>Decompressor::decompress\<close> and \<^verbatim>\<open>gzip::decompress\<close> (sizes for
  which \<open>2 * size\<close> fits); and \<^verbatim>\<open>is_compressed\<close> gives the same answer on
  two buffers with the same \<open>size\<close> bytes.
\<close>

theorem results_do_not_depend_on_container_contents:
  "(increase (length data) < 2 ^ 32 \<longrightarrow>
      map_option (map_sum fst id) (Compressor_compress z DEBUG cself out data) =
      map_option (map_sum fst id) (Compressor_compress z DEBUG cself out' data)) \<and>
   gzip_compress z DEBUG data level =
     map_option (map_sum fst id) (Compressor_compress z DEBUG (new_Compressor level 2000000000) out data) \<and>
   (2 * length data < 2 ^ 32 \<longrightarrow>
      map_option (map_sum fst id) (Decompressor_decompress z DEBUG dself out data) =
      map_option (map_sum fst id) (Decompressor_decompress z DEBUG dself out' data)) \<and>
   (max_bytes < 2 ^ 32 \<longrightarrow>
      gzip_decompress z DEBUG data max_bytes =
      map_option (map_sum fst id) (Decompressor_decompress z DEBUG (new_Decompressor max_bytes) out data)) \<and>
   (sz \<le> length buf \<and> sz \<le> length buf' \<and> take sz buf = take sz buf' \<longrightarrow>
      is_compressed buf sz = is_compressed buf' sz)"
proof (intro conjI impI)
  assume "increase (length data) < 2 ^ 32"
  then show "map_option (map_sum fst id) (Compressor_compress z DEBUG cself out data) =
      map_option (map_sum fst id) (Compressor_compress z DEBUG cself out' data)"
    by (rule Compressor_compress_container)
next
  show "gzip_compress z DEBUG data level =
     map_option (map_sum fst id) (Compressor_compress z DEBUG (new_Compressor level 2000000000) out data)"
  proof (cases "length data \<le> 2000000000")
    case True
    then have "increase (length data) < 2 ^ 32" by (simp add: increase_def)
    from Compressor_compress_container [OF this] show ?thesis
      unfolding gzip_compress_def .
  next
    case False
    then show ?thesis
      by (simp add: gzip_compress_def Compressor_compress_def new_Compressor_def)
  qed
next
  assume "2 * length data < 2 ^ 32"
  then show "map_option (map_sum fst id) (Decompressor_decompress z DEBUG dself out data) =
      map_option (map_sum fst id) (Decompressor_decompress z DEBUG dself out' data)"
    by (rule Decompressor_decompress_container)
next
  assume mb: "max_bytes < 2 ^ 32"
  show "gzip_decompress z DEBUG data max_bytes =
      map_option (map_sum fst id) (Decompressor_decompress z DEBUG (new_Decompressor max_bytes) out data)"
  proof (cases "2 * length data \<le> max_bytes")
    case True
    with mb have "2 * length data < 2 ^ 32" by simp
    from Decompressor_decompress_container [OF this] show ?thesis
      unfolding gzip_decompress_def .
  next
    case False
    then show ?thesis
      by (auto simp add: gzip_decompress_def Decompressor_decompress_def new_Decompressor_def
          split: prod.splits)
  qed
next
  assume a: "sz \<le> length buf \<and> sz \<le> length buf' \<and> take sz buf = take sz buf'"
  show "is_compressed buf sz = is_compressed buf' sz"
  proof (cases "2 < sz")
    case True
    from a have e: "take sz buf = take sz buf'" by simp
    from True have "buf ! 0 = take sz buf ! 0" "buf ! 1 = take sz buf ! 1"
      "take sz buf' ! 0 = buf' ! 0" "take sz buf' ! 1 = buf' ! 1" by simp_all
    with e have "buf ! 0 = buf' ! 0" "buf ! 1 = buf' ! 1" by simp_all
    then show ?thesis by (simp add: is_compressed_def)
  next
    case False
    then show ?thesis by (simp add: is_compressed_def)
  qed
qed

theorem results_do_not_depend_on_container_contents_witness:
  "Compressor_compress stub False (new_Compressor 6 2000000000) [] [1, 2, 3] =
     Some (Inr [0x1F, 0x8B, 1, 2, 3]) \<and>
   Compressor_compress stub False (new_Compressor 6 2000000000) [9, 9, 9, 9, 9, 9, 9] [1, 2, 3] =
     Some (Inr [0x1F, 0x8B, 1, 2, 3]) \<and>
   gzip_compress stub False [1, 2, 3] 6 = Some (Inr [0x1F, 0x8B, 1, 2, 3]) \<and>
   Decompressor_decompress stub False (new_Decompressor 2000000000) [] [0x1F, 0x8B, 1, 2, 3] =
     Some (Inr [1, 2, 3]) \<and>
   Decompressor_decompress stub False (new_Decompressor 2000000000) [9, 9] [0x1F, 0x8B, 1, 2, 3] =
     Some (Inr [1, 2, 3]) \<and>
   gzip_decompress stub False [0x1F, 0x8B, 1, 2, 3] 2000000000 = Some (Inr [1, 2, 3]) \<and>
   is_compressed [0x1F, 0x8B, 0x08, 0x00] 3 = is_compressed [0x1F, 0x8B, 0x08, 0xFF, 0xFF] 3"
proof -
  note T = results_do_not_depend_on_container_contents
    [where z = stub and DEBUG = False and cself = "new_Compressor 6 2000000000" and level = 6
       and dself = "new_Decompressor 2000000000" and max_bytes = 2000000000
       and sz = 3 and buf = "[0x1F, 0x8B, 0x08, 0x00]" and buf' = "[0x1F, 0x8B, 0x08, 0xFF, 0xFF]"]
  have c: "Compressor_compress stub False (new_Compressor 6 2000000000) [] [1, 2, 3] =
     Some (Inr [0x1F, 0x8B, 1, 2, 3])"
    by (rule stub_compress) (simp_all add: new_Compressor_def)
  have d: "Decompressor_decompress stub False (new_Decompressor 2000000000) [] [0x1F, 0x8B, 1, 2, 3] =
     Some (Inr [1, 2, 3])"
    by (rule stub_decompress) (simp_all add: new_Decompressor_def)
  have "increase (length [1, 2, 3 :: byte]) < 2 ^ 32" by (simp add: increase_def)
  from T [where data = "[1, 2, 3]" and out = "[]" and out' = "[9, 9, 9, 9, 9, 9, 9]",
      THEN conjunct1, THEN mp, OF this]
  have "map_option (map_sum fst id)
      (Compressor_compress stub False (new_Compressor 6 2000000000) [9, 9, 9, 9, 9, 9, 9] [1, 2, 3]) =
      Some (Inr [0x1F, 0x8B, 1, 2, 3])"
    unfolding c by simp
  then have 1: "Compressor_compress stub False (new_Compressor 6 2000000000) [9, 9, 9, 9, 9, 9, 9] [1, 2, 3] =
     Some (Inr [0x1F, 0x8B, 1, 2, 3])"
    by (simp only: map_result_Inr)
  have 2: "gzip_compress stub False [1, 2, 3] 6 = Some (Inr [0x1F, 0x8B, 1, 2, 3])"
    using T [where data = "[1, 2, 3]" and out = "[]", THEN conjunct2, THEN conjunct1] c by simp
  have "2 * length [0x1F, 0x8B, 1, 2, 3 :: byte] < 2 ^ 32" by simp
  from T [where data = "[0x1F, 0x8B, 1, 2, 3]" and out = "[]" and out' = "[9, 9]",
      THEN conjunct2, THEN conjunct2, THEN conjunct1, THEN mp, OF this]
  have "map_option (map_sum fst id)
      (Decompressor_decompress stub False (new_Decompressor 2000000000) [9, 9] [0x1F, 0x8B, 1, 2, 3]) =
      Some (Inr [1, 2, 3])"
    unfolding d by simp
  then have 3: "Decompressor_decompress stub False (new_Decompressor 2000000000) [9, 9] [0x1F, 0x8B, 1, 2, 3] =
     Some (Inr [1, 2, 3])"
    by (simp only: map_result_Inr)
  have 4: "gzip_decompress stub False [0x1F, 0x8B, 1, 2, 3] 2000000000 = Some (Inr [1, 2, 3])"
    using T [where data = "[0x1F, 0x8B, 1, 2, 3]" and out = "[]",
        THEN conjunct2, THEN conjunct2, THEN conjunct2, THEN conjunct1] d by simp
  have 5: "is_compressed [0x1F, 0x8B, 0x08, 0x00] 3 = is_compressed [0x1F, 0x8B, 0x08, 0xFF, 0xFF] 3"
    using T [THEN conjunct2, THEN conjunct2, THEN conjunct2, THEN conjunct2] by simp
  from c d 1 2 3 4 5 show ?thesis by simp
qed

section \<open>Termination on the other inputs\<close>

lemma decompress_loop_terminates:
  assumes "0 < sz"
  shows "\<exists>r. decompress_loop z sz mx s = Some r"
proof (induction "mx - size_uncompressed s" arbitrary: s rule: less_induct)
  case less
  show ?case
  proof (cases "decompress_iter z sz mx s")
    case (Inl e)
    then have "decompress_loop z sz mx s = Some (Inl e)"
      by (subst decompress_loop.simps) simp
    then show ?thesis by blast
  next
    case (Inr s')
    show ?thesis
    proof (cases "avail_out (inflate_s s') = 0")
      case False
      with Inr have "decompress_loop z sz mx s = Some (Inr s')"
        by (subst decompress_loop.simps) simp
      then show ?thesis by blast
    next
      case True
      obtain ret written strm where zc:
        "zcall (inflate z) ((inflate_s s)\<lparr>avail_out := (2 * sz) mod 2 ^ 32\<rparr>) Z_FINISH = (ret, written, strm)"
        by (cases "zcall (inflate z) ((inflate_s s)\<lparr>avail_out := (2 * sz) mod 2 ^ 32\<rparr>) Z_FINISH")
      from Inr zc have s': "size_uncompressed s' = size_uncompressed s + (2 * sz - avail_out strm)"
        "inflate_s s' = strm"
        by (auto simp add: decompress_iter_def split: if_splits)
      with True have su: "size_uncompressed s' = size_uncompressed s + 2 * sz" by simp
      from decompress_iter_Inr(2) [OF Inr] have "size_uncompressed s + 2 * sz \<le> mx" .
      with su assms have "mx - size_uncompressed s' < mx - size_uncompressed s" by simp
      from less.hyps [OF this] obtain r where "decompress_loop z sz mx s' = Some r" by blast
      with Inr True have "decompress_loop z sz mx s = Some r"
        by (subst decompress_loop.simps) simp
      then show ?thesis by blast
    qed
  qed
qed


text \<open>
  X1. For every non-empty input the decompress loop terminates, whatever the codec does:
  a pass that leaves \<open>avail_out = 0\<close> has raised \<open>size_uncompressed\<close> by
  \<open>2 * size > 0\<close>, and the ceiling check stops the loop once it would pass
  \<open>max_\<close>. So \<^verbatim>\<open>Decompressor::decompress\<close> and \<^verbatim>\<open>gzip::decompress\<close>
  return or throw on every non-empty buffer.
\<close>

theorem decompress_nonempty_input_terminates:
  "data \<noteq> [] \<longrightarrow>
     (\<exists>r. Decompressor_decompress z DEBUG self out data = Some r) \<and>
     (\<exists>r. gzip_decompress z DEBUG data max_bytes = Some r)"
proof
  assume "data \<noteq> []"
  then have pos: "0 < length data" by simp
  have "\<exists>r. Decompressor_decompress z DEBUG self' out' data = Some r" for self' out'
  proof -
    obtain ret st where init: "inflateInit2 z (15 + 32) = (ret, st)"
      by (cases "inflateInit2 z (15 + 32)")
    from decompress_loop_terminates [OF pos] obtain r where
      "decompress_loop z (length data) (max_d self') (dinit out' data st) = Some r" by blast
    with init show ?thesis
      by (cases r) (simp_all add: Decompressor_decompress_def)
  qed
  then show "(\<exists>r. Decompressor_decompress z DEBUG self out data = Some r) \<and>
     (\<exists>r. gzip_decompress z DEBUG data max_bytes = Some r)"
    by (simp add: gzip_decompress_def)
qed


theorem decompress_nonempty_input_terminates_witness:
  "[0x78, 0x9C, 0x01 :: byte] \<noteq> [] \<and>
   (\<exists>r. Decompressor_decompress stub False (new_Decompressor 2000000000) [] [0x78, 0x9C, 0x01] = Some r) \<and>
   (\<exists>r. gzip_decompress stub False [0x78, 0x9C, 0x01] 2000000000 = Some r)"
  using decompress_nonempty_input_terminates
    [of "[0x78, 0x9C, 0x01]" stub False "new_Decompressor 2000000000" "[]" 2000000000]
  by simp


lemma compress_loop_terminates:
  fixes \<mu> :: "'s z_stream \<Rightarrow> nat"
  assumes dec: "\<And>strm ret written strm'.
      zcall (deflate z) strm Z_FINISH = (ret, written, strm') \<Longrightarrow> 0 < avail_out strm \<Longrightarrow>
      avail_out strm' = 0 \<Longrightarrow> \<mu> strm' < \<mu> strm"
    and ins: "\<And>strm w. \<mu> (strm\<lparr>avail_out := w\<rparr>) = \<mu> strm"
    and win: "0 < increase sz mod 2 ^ 32"
  shows "\<exists>r. compress_loop z sz s = Some r"
proof (induction "\<mu> (deflate_s s)" arbitrary: s rule: less_induct)
  case less
  let ?s1 = "compress_iter z sz s"
  show ?case
  proof (cases "avail_out (deflate_s ?s1) = 0")
    case False
    then have "compress_loop z sz s = Some ?s1"
      by (subst compress_loop.simps) simp
    then show ?thesis by blast
  next
    case True
    obtain ret written strm where zc:
      "zcall (deflate z) ((deflate_s s)\<lparr>avail_out := increase sz mod 2 ^ 32\<rparr>) Z_FINISH = (ret, written, strm)"
      by (cases "zcall (deflate z) ((deflate_s s)\<lparr>avail_out := increase sz mod 2 ^ 32\<rparr>) Z_FINISH")
    then have d: "deflate_s ?s1 = strm" by (simp add: compress_iter_def)
    from dec [OF zc] win True have "\<mu> strm < \<mu> ((deflate_s s)\<lparr>avail_out := increase sz mod 2 ^ 32\<rparr>)"
      by (simp add: d)
    then have "\<mu> (deflate_s ?s1) < \<mu> (deflate_s s)" by (simp add: d ins)
    from less.hyps [OF this] obtain r where "compress_loop z sz ?s1 = Some r" by blast
    with True have "compress_loop z sz s = Some r"
      by (subst compress_loop.simps) simp
    then show ?thesis by blast
  qed
qed


lemma stub_deflate_measure:
  assumes "zcall (deflate stub) strm Z_FINISH = (ret, written, strm')" "0 < avail_out strm"
    "avail_out strm' = 0"
  shows "length (state strm' @ take (avail_in strm') (next_in strm')) <
         length (state strm @ take (avail_in strm) (next_in strm))"
proof -
  let ?p = "state strm @ take (avail_in strm) (next_in strm)"
  from assms(1) have s: "state strm' = drop (avail_out strm) ?p"
    and i: "take (avail_in strm') (next_in strm') = []"
    and a: "avail_out strm' = avail_out strm - length (take (avail_out strm) ?p)"
    by (auto simp add: zcall_def stub_def stub_deflate_def min_def)
  from a assms(2,3) have "avail_out strm \<le> length ?p" by simp
  with assms(2) show ?thesis unfolding s i by simp
qed


text \<open>
  X2. The compress loop terminates when the codec's stream is finite: if some measure
  \<open>\<mu>\<close> of the stream goes down with every call that fills a non-empty window
  completely (for zlib, the compressed bytes still to come) and does not depend on
  \<open>avail_out\<close>, then \<^verbatim>\<open>Compressor::compress\<close> returns or throws on every
  input for which \<open>increase\<close> fits in an \<^verbatim>\<open>unsigned int\<close>, and
  \<^verbatim>\<open>gzip::compress\<close> on every input.
\<close>

theorem compress_terminates_on_finite_stream:
  fixes \<mu> :: "'s z_stream \<Rightarrow> nat"
  assumes "\<And>strm ret written strm'.
      zcall (deflate z) strm Z_FINISH = (ret, written, strm') \<Longrightarrow> 0 < avail_out strm \<Longrightarrow>
      avail_out strm' = 0 \<Longrightarrow> \<mu> strm' < \<mu> strm"
    and "\<And>strm w. \<mu> (strm\<lparr>avail_out := w\<rparr>) = \<mu> strm"
  shows "(increase (length data) < 2 ^ 32 \<longrightarrow>
           (\<exists>r. Compressor_compress z DEBUG self out data = Some r)) \<and>
         (\<exists>r. gzip_compress z DEBUG data level = Some r)"
proof -
  have 1: "\<exists>r. Compressor_compress z DEBUG self' out' data = Some r"
    if "increase (length data) < 2 ^ 32" for self' out'
  proof -
    obtain ret st where init:
      "deflateInit2 z (level_c self') Z_DEFLATED (15 + 16) 8 Z_DEFAULT_STRATEGY = (ret, st)"
      by (cases "deflateInit2 z (level_c self') Z_DEFLATED (15 + 16) 8 Z_DEFAULT_STRATEGY")
    have "0 < increase (length data) mod 2 ^ 32"
      using that by (simp add: increase_def)
    have "\<exists>r. compress_loop z (length data) (cinit out' data st) = Some r"
    proof (rule compress_loop_terminates [where \<mu> = \<mu>])
      show "\<And>strm ret written strm'.
        zcall (deflate z) strm Z_FINISH = (ret, written, strm') \<Longrightarrow> 0 < avail_out strm \<Longrightarrow>
        avail_out strm' = 0 \<Longrightarrow> \<mu> strm' < \<mu> strm" by (rule assms(1))
      show "\<And>strm w. \<mu> (strm\<lparr>avail_out := w\<rparr>) = \<mu> strm" by (rule assms(2))
      show "0 < increase (length data) mod 2 ^ 32" by fact
    qed
    then obtain r where
      "compress_loop z (length data) (cinit out' data st) = Some r" by blast
    with init show ?thesis
      by (simp add: Compressor_compress_def)
  qed
  have "\<exists>r. gzip_compress z DEBUG data level = Some r"
  proof (cases "length data \<le> 2000000000")
    case True
    then have "increase (length data) < 2 ^ 32" by (simp add: increase_def)
    from 1 [OF this] show ?thesis by (simp add: gzip_compress_def)
  next
    case False
    then show ?thesis
      by (simp add: gzip_compress_def Compressor_compress_def new_Compressor_def)
  qed
  with 1 show ?thesis by blast
qed


theorem compress_terminates_on_finite_stream_witness:
  "increase (length [1, 2, 3 :: byte]) < 2 ^ 32 \<and>
   (\<exists>r. Compressor_compress stub False (new_Compressor 6 2000000000) [] [1, 2, 3] = Some r) \<and>
   (\<exists>r. gzip_compress stub False [1, 2, 3] 6 = Some r)"
proof -
  have "(increase (length [1, 2, 3 :: byte]) < 2 ^ 32 \<longrightarrow>
           (\<exists>r. Compressor_compress stub False (new_Compressor 6 2000000000) [] [1, 2, 3] = Some r)) \<and>
         (\<exists>r. gzip_compress stub False [1, 2, 3] 6 = Some r)"
  proof (rule compress_terminates_on_finite_stream
      [where \<mu> = "\<lambda>strm. length (state strm @ take (avail_in strm) (next_in strm))"])
    show "\<And>strm ret written strm'.
      zcall (deflate stub) strm Z_FINISH = (ret, written, strm') \<Longrightarrow> 0 < avail_out strm \<Longrightarrow>
      avail_out strm' = 0 \<Longrightarrow>
      length (state strm' @ take (avail_in strm') (next_in strm')) <
      length (state strm @ take (avail_in strm) (next_in strm))"
      by (rule stub_deflate_measure)
    show "\<And>(strm :: byte list z_stream) w.
      length (state (strm\<lparr>avail_out := w\<rparr>) @
        take (avail_in (strm\<lparr>avail_out := w\<rparr>)) (next_in (strm\<lparr>avail_out := w\<rparr>))) =
      length (state strm @ take (avail_in strm) (next_in strm))"
      by simp
  qed
  then show ?thesis by (simp add: increase_def)
qed


section \<open>Codec errors with a message\<close>

lemma decompress_iter_Inl_cases:
  assumes "decompress_iter z sz mx s = Inl (e, out')"
  shows "e = Runtime_error
               ''size of output string will use more memory then intended when decompressing'' \<or>
         (\<exists>ret written strm.
            zcall (inflate z) ((inflate_s s)\<lparr>avail_out := (2 * sz) mod 2 ^ 32\<rparr>) Z_FINISH =
              (ret, written, strm) \<and>
            ret \<notin> {Z_STREAM_END, Z_OK, Z_BUF_ERROR} \<and>
            e = (case msg strm of None \<Rightarrow> Null_msg_string | Some m \<Rightarrow> Runtime_error m))"
proof (cases "mx < size_uncompressed s + 2 * sz")
  case True
  with assms show ?thesis by (simp add: decompress_iter_def)
next
  case False
  obtain ret written strm where zc:
    "zcall (inflate z) ((inflate_s s)\<lparr>avail_out := (2 * sz) mod 2 ^ 32\<rparr>) Z_FINISH = (ret, written, strm)"
    by (cases "zcall (inflate z) ((inflate_s s)\<lparr>avail_out := (2 * sz) mod 2 ^ 32\<rparr>) Z_FINISH")
  with assms False show ?thesis
    by (auto simp add: decompress_iter_def split: if_splits)
qed


text \<open>
  X3. What decompress throws. A pass in which \<^verbatim>\<open>inflate\<close> returns a code other
  than \<^verbatim>\<open>Z_STREAM_END\<close>, \<^verbatim>\<open>Z_OK\<close> and \<^verbatim>\<open>Z_BUF_ERROR\<close> with a
  message \<open>m\<close> ends the loop with \<^verbatim>\<open>std::runtime_error(m)\<close>; a pass in
  which it returns one of the three codes does not throw. Conversely every exception of
  \<^verbatim>\<open>Decompressor::decompress\<close> is one of its four own messages, or stems from
  such a return of \<^verbatim>\<open>inflate\<close> and carries the codec's message and nothing
  else of the codec.
\<close>

theorem decompress_surfaces_codec_message:
  "(\<not> mx < size_uncompressed s + 2 * sz \<and>
    zcall (inflate z) ((inflate_s s)\<lparr>avail_out := (2 * sz) mod 2 ^ 32\<rparr>) Z_FINISH =
      (ret, written, strm) \<and>
    ret \<notin> {Z_STREAM_END, Z_OK, Z_BUF_ERROR} \<and> msg strm = Some m \<longrightarrow>
      (\<exists>out'. decompress_iter z sz mx s = Inl (Runtime_error m, out') \<and>
         decompress_loop z sz mx s = Some (Inl (Runtime_error m, out')))) \<and>
   (\<not> mx < size_uncompressed s + 2 * sz \<and>
    zcall (inflate z) ((inflate_s s)\<lparr>avail_out := (2 * sz) mod 2 ^ 32\<rparr>) Z_FINISH =
      (ret, written, strm) \<and>
    ret \<in> {Z_STREAM_END, Z_OK, Z_BUF_ERROR} \<longrightarrow>
      (\<exists>s'. decompress_iter z sz mx s = Inr s')) \<and>
   (Decompressor_decompress (z :: 's zlib) DEBUG self out data = Some (Inl (e, out')) \<longrightarrow>
      e \<in> {Runtime_error ''inflate init failed'',
            Runtime_error ''size arg is too large to fit into unsigned int type x2'',
            Runtime_error ''size may use more memory than intended when decompressing'',
            Runtime_error
              ''size of output string will use more memory then intended when decompressing''} \<or>
      (\<exists>(t :: 's dloop) ret written strm.
         zcall (inflate z) ((inflate_s t)\<lparr>avail_out := (2 * length data) mod 2 ^ 32\<rparr>) Z_FINISH =
           (ret, written, strm) \<and>
         ret \<notin> {Z_STREAM_END, Z_OK, Z_BUF_ERROR} \<and>
         e = (case msg strm of None \<Rightarrow> Null_msg_string | Some m \<Rightarrow> Runtime_error m)))"
proof (intro conjI impI)
  assume a: "\<not> mx < size_uncompressed s + 2 * sz \<and>
    zcall (inflate z) ((inflate_s s)\<lparr>avail_out := (2 * sz) mod 2 ^ 32\<rparr>) Z_FINISH =
      (ret, written, strm) \<and>
    ret \<notin> {Z_STREAM_END, Z_OK, Z_BUF_ERROR} \<and> msg strm = Some m"
  then have "\<exists>out'. decompress_iter z sz mx s = Inl (Runtime_error m, out')"
    by (simp add: decompress_iter_def)
  then obtain out' where it: "decompress_iter z sz mx s = Inl (Runtime_error m, out')" by blast
  then have "decompress_loop z sz mx s = Some (Inl (Runtime_error m, out'))"
    by (subst decompress_loop.simps) simp
  with it show "\<exists>out'. decompress_iter z sz mx s = Inl (Runtime_error m, out') \<and>
         decompress_loop z sz mx s = Some (Inl (Runtime_error m, out'))" by blast
next
  assume "\<not> mx < size_uncompressed s + 2 * sz \<and>
    zcall (inflate z) ((inflate_s s)\<lparr>avail_out := (2 * sz) mod 2 ^ 32\<rparr>) Z_FINISH =
      (ret, written, strm) \<and>
    ret \<in> {Z_STREAM_END, Z_OK, Z_BUF_ERROR}"
  then show "\<exists>s'. decompress_iter z sz mx s = Inr s'"
    by (auto simp add: decompress_iter_def)
next
  assume a: "Decompressor_decompress z DEBUG self out data = Some (Inl (e, out'))"
  obtain r st where init: "inflateInit2 z (15 + 32) = (r, st)"
    by (cases "inflateInit2 z (15 + 32)")
  let ?fixed = "{Runtime_error ''inflate init failed'',
            Runtime_error ''size arg is too large to fit into unsigned int type x2'',
            Runtime_error ''size may use more memory than intended when decompressing'',
            Runtime_error
              ''size of output string will use more memory then intended when decompressing''}"
  show "e \<in> ?fixed \<or>
      (\<exists>(t :: 's dloop) ret written strm.
         zcall (inflate z) ((inflate_s t)\<lparr>avail_out := (2 * length data) mod 2 ^ 32\<rparr>) Z_FINISH =
           (ret, written, strm) \<and>
         ret \<notin> {Z_STREAM_END, Z_OK, Z_BUF_ERROR} \<and>
         e = (case msg strm of None \<Rightarrow> Null_msg_string | Some m \<Rightarrow> Runtime_error m))"
  proof (cases "decompress_loop z (length data) (max_d self) (dinit out data st) = Some (Inl (e, out'))")
    case True
    from decompress_loop_last_pass [OF True] obtain t where
      "decompress_iter z (length data) (max_d self) t = Inl (e, out')" by blast
    from decompress_iter_Inl_cases [OF this] show ?thesis
    proof (elim disjE)
      assume "e = Runtime_error
               ''size of output string will use more memory then intended when decompressing''"
      then show ?thesis by simp
    next
      assume x: "\<exists>ret written strm.
            zcall (inflate z) ((inflate_s t)\<lparr>avail_out := (2 * length data) mod 2 ^ 32\<rparr>) Z_FINISH =
              (ret, written, strm) \<and>
            ret \<notin> {Z_STREAM_END, Z_OK, Z_BUF_ERROR} \<and>
            e = (case msg strm of None \<Rightarrow> Null_msg_string | Some m \<Rightarrow> Runtime_error m)"
      show ?thesis
by (rule disjI2, rule exI [of _ t], rule x)
    qed
  next
    case False
    with a init have "e \<in> ?fixed"
      by (auto simp add: Decompressor_decompress_def split: if_splits option.splits sum.splits)
    then show ?thesis by blast
  qed
qed


theorem decompress_surfaces_codec_message_witness:
  "gzip_decompress stub False [0x78, 0x9C, 0x01] 2000000000 =
     Some (Inl (Runtime_error ''incorrect header check''))"
proof -
  let ?data = "[0x78, 0x9C, 0x01] :: byte list"
  let ?s = "dinit [] ?data ([] :: byte list)"
  let ?strm = "(inflate_s ?s)\<lparr>avail_out := 6, msg := Some ''incorrect header check''\<rparr>"
  have h: "\<not> 2000000000 < size_uncompressed ?s + 2 * length ?data \<and>
    zcall (inflate stub) ((inflate_s ?s)\<lparr>avail_out := (2 * length ?data) mod 2 ^ 32\<rparr>) Z_FINISH =
      (Z_DATA_ERROR, [], ?strm) \<and>
    Z_DATA_ERROR \<notin> {Z_STREAM_END, Z_OK, Z_BUF_ERROR} \<and> msg ?strm = Some ''incorrect header check''"
    by (simp add: zcall_def stub_def stub_inflate_def dinit_def Z_DATA_ERROR_def
        Z_STREAM_END_def Z_OK_def Z_BUF_ERROR_def)
  from decompress_surfaces_codec_message
      [where z = stub and sz = "length ?data" and mx = 2000000000 and s = ?s,
       THEN conjunct1, THEN mp, OF h]
  obtain out' where
    "decompress_loop stub (length ?data) 2000000000 ?s =
       Some (Inl (Runtime_error ''incorrect header check'', out'))"
    by blast
  moreover have "inflateInit2 stub (15 + 32) = (Z_OK, [])" by (simp add: stub_def)
  ultimately show ?thesis
    by (simp add: gzip_decompress_def Decompressor_decompress_def new_Decompressor_def
        UINT_MAX_def)
qed

end
